theory Spec2Isabelle
  imports Main "HOL-Library.Word"
begin

unbundle bit_operations_syntax

section \<open>Next Image Manipulator: colour quantizer, palette codec, image converter\<close>

type_synonym u8 = "8 word"
type_synonym u16 = "16 word"
type_synonym u32 = "32 word"

subsection \<open>Colour quantizer (main.cc, lines 69-116)\<close>

definition kColour_3bit :: "int list" where
  "kColour_3bit = [0, 36, 73, 109, 146, 182, 219, 255]"

definition kColour_2bit :: "int list" where
  "kColour_2bit = [0, 85, 170, 255]"

text \<open>
  The \<^verbatim>\<open>for\<close> loop shared by \<^verbatim>\<open>gfxReduce3\<close> and \<^verbatim>\<open>gfxReduce2\<close>: \<open>n\<close> is the loop
  bound (8 or 4), \<open>i\<close> the loop counter, \<open>minIdx\<close> and \<open>minDiff\<close> the two locals. A
  difference of 0 leaves the loop at once (\<^verbatim>\<open>break\<close>) with \<open>minIdx = i\<close>.
\<close>

function reduce_loop :: "int list \<Rightarrow> nat \<Rightarrow> int \<Rightarrow> nat \<Rightarrow> nat \<Rightarrow> int \<Rightarrow> nat" where
  "reduce_loop tbl n v i minIdx minDiff =
     (if i < n then
        (let diff = \<bar>v - tbl ! i\<bar> in
         if 0 = diff then i
         else if diff < minDiff then reduce_loop tbl n v (Suc i) i diff
         else reduce_loop tbl n v (Suc i) minIdx minDiff)
      else minIdx)"
  by pat_completeness auto
termination
  by (relation "measure (\<lambda>(tbl, n, v, i, minIdx, minDiff). n - i)") auto

definition gfxReduce3 :: "u8 \<Rightarrow> u8" where
  "gfxReduce3 v = of_nat (reduce_loop kColour_3bit 8 (uint v) 0 0 255)"

definition gfxReduce2 :: "u8 \<Rightarrow> u8" where
  "gfxReduce2 v = of_nat (reduce_loop kColour_2bit 4 (uint v) 0 0 255)"


subsection \<open>Data structures (main.cc, lines 123-147, 236-240, 275-283)\<close>

record Colour =
  m_red :: u8
  m_green :: u8
  m_blue :: u8

record Palette =
  m_colours :: "Colour list"
  m_transparentColour :: u8

definition numColours :: "Palette \<Rightarrow> nat" where
  "numColours p = length (m_colours p)"

definition getTransColour :: "Palette \<Rightarrow> u8" where
  "getTransColour p = m_transparentColour p"

definition setTransparent :: "Palette \<Rightarrow> u8 \<Rightarrow> Palette" where
  "setTransparent p index = p\<lparr>m_transparentColour := index\<rparr>"

text \<open>
  The default constructor \<^verbatim>\<open>Palette()\<close>: the loop counter \<open>i\<close> is a C \<^verbatim>\<open>int\<close> running
  over 0..255, each channel is narrowed to \<^verbatim>\<open>u8\<close>.
\<close>

definition default_colour :: "int \<Rightarrow> Colour" where
  "default_colour i =
     \<lparr>m_red = word_of_int (drop_bit 5 (i AND 0xe0)),
      m_green = word_of_int (drop_bit 2 (i AND 0x1c)),
      m_blue = word_of_int (push_bit 1 (i AND 0x03) + (drop_bit 1 (i AND 0x02) OR (i AND 0x01)))\<rparr>"

definition Palette_default :: Palette where
  "Palette_default =
     \<lparr>m_colours = map (\<lambda>i. default_colour (int i)) [0..<256], m_transparentColour = 0xe3\<rparr>"

subsection \<open>Failures\<close>

text \<open>
  The program reports a failure by a line on \<^verbatim>\<open>cerr\<close> and an early return; the
  constructors below are named after the error kinds of the specification and stand for
  these messages:
  \<^item> \<open>InvalidColorValue\<close>: ``ERROR: Invalid .pal file'' (line 212);
  \<^item> \<open>ColorCountMismatch\<close>: ``ERROR: Invalid number of colours found in the palette.''
    (line 223);
  \<^item> \<open>SourceImageLoadFailure\<close>: ``ERROR: Could not load image'' (line 391);
  \<^item> \<open>PaletteTooLarge\<close>: ``ERROR: Invalid palette for 4-bit mode. Must be 16 colours or
    less.'' (line 401);
  \<^item> \<open>OddWidthFor4Bit\<close>: ``ERROR: Width must be a multiple of 2 for 4-bit mode.''
    (line 407);
  \<^item> \<open>OutputWriteFailure\<close>: ``ERROR: Unable to open'' (line 506).

  Three more constructors stand for executions that leave the defined behaviour of C++:
  \<open>IndeterminateRead\<close> for the use of an object that was declared without initialiser and
  never written (a read from a stream that has failed stores nothing), \<open>OutOfBoundsRead\<close>
  for an index outside \<^verbatim>\<open>kColour_3bit\<close> or outside the decoded pixel buffer, and
  \<open>StoiThrows\<close> for the exception \<^verbatim>\<open>std::stoi\<close> throws, which nothing catches.
  \<open>AssertionFailed\<close> is the \<^verbatim>\<open>assert\<close> of line 479.
\<close>

datatype error =
    InvalidColorValue
  | ColorCountMismatch
  | SourceImageLoadFailure
  | PaletteTooLarge
  | OddWidthFor4Bit
  | OutputWriteFailure
  | IndeterminateRead
  | OutOfBoundsRead
  | StoiThrows
  | AssertionFailed

subsection \<open>The input stream\<close>

text \<open>
  \<^verbatim>\<open>std::ifstream\<close>, as far as the palette reader uses it: the bytes of the file, the bytes
  not yet read, and the two state bits the reader can set. A byte is a \<^typ>\<open>char\<close>.
\<close>

record ifstream =
  content :: string
  rest :: string
  eofbit :: bool
  failbit :: bool

definition open_file :: "string \<Rightarrow> ifstream" where
  "open_file bytes = \<lparr>content = bytes, rest = bytes, eofbit = False, failbit = False\<rparr>"

definition good :: "ifstream \<Rightarrow> bool" where
  "good f \<longleftrightarrow> \<not> eofbit f \<and> \<not> failbit f"

text \<open>
  \<^verbatim>\<open>f.read(dst, n)\<close>: on a stream that is not good nothing is extracted and \<^verbatim>\<open>failbit\<close> is
  set; otherwise up to \<open>n\<close> bytes are extracted, and both bits are set when the file ends
  first. The bytes extracted are returned; the destination is written only as far as
  they reach.
\<close>

definition istream_read :: "ifstream \<Rightarrow> nat \<Rightarrow> string \<times> ifstream" where
  "istream_read f n =
     (if good f then
        (let got = take n (rest f) in
         (got, f\<lparr>rest := drop n (rest f), eofbit := length got < n, failbit := length got < n\<rparr>))
      else ([], f\<lparr>failbit := True\<rparr>))"

text \<open>Reading one byte into a \<^verbatim>\<open>u8\<close>; \<open>None\<close> when the destination was not written.\<close>

definition read_u8 :: "ifstream \<Rightarrow> u8 option \<times> ifstream" where
  "read_u8 f =
     (case istream_read f 1 of
        ([c], f') \<Rightarrow> (Some (of_char c), f')
      | (_, f') \<Rightarrow> (None, f'))"

text \<open>\<^verbatim>\<open>f.seekg(0, ios::beg)\<close> clears \<^verbatim>\<open>eofbit\<close> and seeks unless the stream has failed.\<close>

definition seekg_beg :: "ifstream \<Rightarrow> ifstream" where
  "seekg_beg f = (if failbit f then f\<lparr>eofbit := False\<rparr> else f\<lparr>rest := content f, eofbit := False\<rparr>)"

definition isspace :: "char \<Rightarrow> bool" where
  "isspace c \<longleftrightarrow> c = CHR '' '' \<or> (9::nat) \<le> of_char c \<and> of_char c \<le> (13::nat)"

definition isdigit :: "char \<Rightarrow> bool" where
  "isdigit c \<longleftrightarrow> (48::nat) \<le> of_char c \<and> of_char c \<le> (57::nat)"

text \<open>
  The sentry of a formatted input operation: fails (setting \<^verbatim>\<open>failbit\<close>) on a stream that
  is not good, skips white space otherwise, and fails with both bits set when the file
  ends before a byte that is not white space.
\<close>

definition sentry :: "ifstream \<Rightarrow> bool \<times> ifstream" where
  "sentry f =
     (if good f then
        (let r = dropWhile isspace (rest f) in
         if r = [] then (False, f\<lparr>rest := [], eofbit := True, failbit := True\<rparr>)
         else (True, f\<lparr>rest := r\<rparr>))
      else (False, f\<lparr>failbit := True\<rparr>))"

text \<open>
  \<^verbatim>\<open>f >> line\<close> for a \<^verbatim>\<open>std::string\<close>: the string keeps its old value \<open>line\<close> when the
  sentry fails; otherwise it becomes the bytes up to the next white space, and \<^verbatim>\<open>eofbit\<close>
  is set when the file ends there.
\<close>

definition get_string :: "ifstream \<Rightarrow> string \<Rightarrow> string \<times> ifstream" where
  "get_string f line =
     (case sentry f of
        (False, f') \<Rightarrow> (line, f')
      | (True, f') \<Rightarrow>
          (let r = dropWhile (\<lambda>c. \<not> isspace c) (rest f') in
           (takeWhile (\<lambda>c. \<not> isspace c) (rest f'), f'\<lparr>rest := r, eofbit := (r = [])\<rparr>)))"

text \<open>Decimal digits, most significant first, to their value.\<close>

definition digits_value :: "string \<Rightarrow> int" where
  "digits_value ds = foldl (\<lambda>acc c. 10 * acc + (int (of_char c) - 48)) 0 ds"

text \<open>
  An optional sign and the longest run of decimal digits at the front of \<open>s\<close>: the value
  (\<open>None\<close> when there is no digit) and the bytes after it.
\<close>

definition scan_int :: "string \<Rightarrow> int option \<times> string" where
  "scan_int s =
     (let (neg, s') =
            (case s of
               [] \<Rightarrow> (False, [])
             | c # t \<Rightarrow> if c = CHR ''-'' then (True, t) else if c = CHR ''+'' then (False, t)
                        else (False, s));
          ds = takeWhile isdigit s'
      in (if ds = [] then None else Some (if neg then - digits_value ds else digits_value ds),
          dropWhile isdigit s'))"

definition INT_MAX :: int where "INT_MAX = 2147483647"
definition INT_MIN :: int where "INT_MIN = - 2147483648"

text \<open>
  \<^verbatim>\<open>f >> v\<close> for an \<^verbatim>\<open>int\<close>: \<open>None\<close> when the sentry fails and \<open>v\<close> is left as it was. After
  the sentry, a field without digits stores 0 and a value outside \<^verbatim>\<open>int\<close> stores the
  nearest bound, both setting \<^verbatim>\<open>failbit\<close>; \<^verbatim>\<open>eofbit\<close> is set when the scan reaches the end of
  the file.
\<close>

definition get_int :: "ifstream \<Rightarrow> int option \<times> ifstream" where
  "get_int f =
     (case sentry f of
        (False, f') \<Rightarrow> (None, f')
      | (True, f') \<Rightarrow>
          (case scan_int (rest f') of
             (None, r) \<Rightarrow> (Some 0, f'\<lparr>rest := r, eofbit := (r = []), failbit := True\<rparr>)
           | (Some v, r) \<Rightarrow>
               if v > INT_MAX then (Some INT_MAX, f'\<lparr>rest := r, eofbit := (r = []), failbit := True\<rparr>)
               else if v < INT_MIN then (Some INT_MIN, f'\<lparr>rest := r, eofbit := (r = []), failbit := True\<rparr>)
               else (Some v, f'\<lparr>rest := r, eofbit := (r = [])\<rparr>)))"

text \<open>
  \<^verbatim>\<open>std::stoi(line)\<close>: white space, an optional sign, decimal digits; bytes after the
  digits are ignored. It throws when there is no digit or the value is not an \<^verbatim>\<open>int\<close>.
\<close>

definition stoi :: "string \<Rightarrow> error + int" where
  "stoi s =
     (case fst (scan_int (dropWhile isspace s)) of
        None \<Rightarrow> Inl StoiThrows
      | Some v \<Rightarrow> if v > INT_MAX \<or> v < INT_MIN then Inl StoiThrows else Inr v)"

subsection \<open>Palette reader (main.cc, lines 149-234)\<close>

text \<open>The unpacking of one entry, lines 179-183.\<close>

definition unpack_colour :: "u8 \<Rightarrow> u8 \<Rightarrow> Colour" where
  "unpack_colour p1 p2 =
     \<lparr>m_red = drop_bit 5 (p1 AND 0xe0),
      m_green = drop_bit 2 (p1 AND 0x1c),
      m_blue = push_bit 1 (p1 AND 0x03) OR (p2 AND 1)\<rparr>"

text \<open>
  The loop of lines 166-184, counted down by the number of entries still to read. \<open>p1\<close>
  and \<open>p2\<close> are declared without initialiser in the loop body; a read that stores nothing
  leaves them indeterminate, and the unpacking that follows uses them.
\<close>

fun read_nip_entries :: "nat \<Rightarrow> u8 \<Rightarrow> ifstream \<Rightarrow> Colour list \<Rightarrow> error + Colour list \<times> ifstream" where
  "read_nip_entries 0 flags f colours = Inr (colours, f)"
| "read_nip_entries (Suc k) flags f colours =
     (case read_u8 f of
        (None, f1) \<Rightarrow> Inl IndeterminateRead
      | (Some p1, f1) \<Rightarrow>
          if flags AND 1 \<noteq> 0 then
            (case read_u8 f1 of
               (None, f2) \<Rightarrow> Inl IndeterminateRead
             | (Some p2, f2) \<Rightarrow> read_nip_entries k flags f2 (colours @ [unpack_colour p1 p2]))
          else
            read_nip_entries k flags f1
              (colours @ [unpack_colour p1 (drop_bit 1 (p1 AND 2) OR (p1 AND 1))]))"

text \<open>
  The range test of lines 208-210 on the three values just extracted. The disjunction is
  evaluated left to right and stops at the first operand that holds; a value the
  extraction did not store is indeterminate.
\<close>

definition check_triple :: "int option \<Rightarrow> int option \<Rightarrow> int option \<Rightarrow> error + int \<times> int \<times> int" where
  "check_triple red green blue =
     (case red of None \<Rightarrow> Inl IndeterminateRead | Some r \<Rightarrow>
        if r < 0 \<or> r > 255 then Inl InvalidColorValue else
     (case green of None \<Rightarrow> Inl IndeterminateRead | Some g \<Rightarrow>
        if g < 0 \<or> g > 255 then Inl InvalidColorValue else
     (case blue of None \<Rightarrow> Inl IndeterminateRead | Some b \<Rightarrow>
        if b < 0 \<or> b > 255 then Inl InvalidColorValue else Inr (r, g, b))))"

definition read_triple :: "ifstream \<Rightarrow> (error + int \<times> int \<times> int) \<times> ifstream" where
  "read_triple f =
     (case get_int f of (red, f1) \<Rightarrow>
     (case get_int f1 of (green, f2) \<Rightarrow>
     (case get_int f2 of (blue, f3) \<Rightarrow> (check_triple red green blue, f3))))"

text \<open>
  Each extraction either fails or shortens what is left of the file; this is what makes
  the loop of lines 203-219 terminate.
\<close>

lemma sentry_rest_le: "sentry f = (b, f') \<Longrightarrow> length (rest f') \<le> length (rest f)"
  by (auto simp: sentry_def Let_def length_dropWhile_le split: if_splits)

lemma sentry_True: "sentry f = (True, f') \<Longrightarrow> \<not> failbit f \<and> \<not> failbit f' \<and> \<not> eofbit f'"
  by (auto simp: sentry_def good_def Let_def split: if_splits)

lemma scan_int_rest_le: "scan_int s = (v, r) \<Longrightarrow> length r \<le> length s"
  by (auto simp: scan_int_def Let_def le_SucI length_dropWhile_le split: list.splits if_splits prod.splits)

lemma dropWhile_shorter: "takeWhile P xs \<noteq> [] \<Longrightarrow> length (dropWhile P xs) < length xs"
  by (cases xs) (auto simp: le_imp_less_Suc length_dropWhile_le split: if_splits)

lemma scan_int_Some: "scan_int s = (Some v, r) \<Longrightarrow> length r < length s"
  by (auto simp: scan_int_def Let_def less_SucI dropWhile_shorter le_imp_less_Suc length_dropWhile_le
      split: list.splits if_splits prod.splits)

lemma get_int_Some:
  "get_int f = (Some v, f') \<Longrightarrow> \<not> failbit f \<and> (failbit f' \<or> length (rest f') < length (rest f))"
proof -
  assume a: "get_int f = (Some v, f')"
  obtain f1 where s: "sentry f = (True, f1)"
    using a by (cases "sentry f") (auto simp: get_int_def split: bool.splits)
  obtain w r where sc: "scan_int (rest f1) = (w, r)"
    by (cases "scan_int (rest f1)")
  have nf: "\<not> failbit f" and le: "length (rest f1) \<le> length (rest f)"
    using sentry_True [OF s] sentry_rest_le [OF s] by simp_all
  show ?thesis
  proof (cases w)
    case None
    then show ?thesis using a s sc nf by (auto simp: get_int_def)
  next
    case (Some x)
    then have "length r < length (rest f1)" using sc scan_int_Some by simp
    then show ?thesis using a s sc nf le Some
      by (auto simp: get_int_def split: if_splits)
  qed
qed

lemma get_int_rest_le: "get_int f = (v, f') \<Longrightarrow> length (rest f') \<le> length (rest f)"
proof -
  assume a: "get_int f = (v, f')"
  obtain b f1 where s: "sentry f = (b, f1)" by (cases "sentry f")
  obtain w r where sc: "scan_int (rest f1) = (w, r)" by (cases "scan_int (rest f1)")
  have "length r \<le> length (rest f)"
    using sentry_rest_le [OF s] scan_int_rest_le [OF sc] by simp
  then show ?thesis
    using a s sc sentry_rest_le [OF s]
    by (cases b; cases w) (auto simp: get_int_def split: if_splits)
qed

definition stream_measure :: "ifstream \<Rightarrow> nat" where
  "stream_measure f = (if failbit f then 0 else Suc (length (rest f)))"

lemma read_triple_measure:
  assumes "read_triple f = (Inr t, f')"
  shows "stream_measure f' < stream_measure f"
proof -
  obtain red f1 where g1: "get_int f = (red, f1)" by (cases "get_int f")
  obtain green f2 where g2: "get_int f1 = (green, f2)" by (cases "get_int f1")
  obtain blue f3 where g3: "get_int f2 = (blue, f3)" by (cases "get_int f2")
  from assms g1 g2 g3 have f': "f' = f3" and c: "check_triple red green blue = Inr t"
    by (simp_all add: read_triple_def)
  from c obtain r g b where v: "red = Some r" "green = Some g" "blue = Some b"
    by (auto simp: check_triple_def split: option.splits if_splits)
  have 1: "\<not> failbit f" and 2: "\<not> failbit f1" and 3: "\<not> failbit f2"
    using get_int_Some g1 g2 g3 v by blast+
  have "length (rest f1) < length (rest f)"
    using get_int_Some [of f r f1] g1 v 2 by simp
  moreover have "length (rest f2) \<le> length (rest f1)"
    using get_int_rest_le [OF g2] .
  moreover have "length (rest f3) \<le> length (rest f2)"
    using get_int_rest_le [OF g3] .
  ultimately show ?thesis
    using 1 by (simp add: stream_measure_def f')
qed

text \<open>
  The loop of lines 203-219: \<open>num\<close> is the declared count (a \<^verbatim>\<open>size_t\<close>), \<open>i\<close> the counter,
  \<open>colours\<close> the vector filled so far. The loop ends when \<^verbatim>\<open>eofbit\<close> is set at the
  head of an iteration, or by \<^verbatim>\<open>break\<close> when the counter reaches \<open>num\<close>.
\<close>

function read_pal_loop :: "nat \<Rightarrow> ifstream \<Rightarrow> nat \<Rightarrow> Colour list \<Rightarrow> error + Colour list" where
  "read_pal_loop num f i colours =
     (if eofbit f then Inr colours
      else
        (case read_triple f of
           (Inl e, f') \<Rightarrow> Inl e
         | (Inr (red, green, blue), f') \<Rightarrow>
             (let colours' = colours @
                    [\<lparr>m_red = gfxReduce3 (word_of_int red), m_green = gfxReduce3 (word_of_int green),
                      m_blue = gfxReduce3 (word_of_int blue)\<rparr>]
              in if Suc i = num then Inr colours' else read_pal_loop num f' (Suc i) colours')))"
  by pat_completeness auto
termination
  by (relation "measure (\<lambda>(num, f, i, colours). stream_measure f)")
    (auto intro: read_triple_measure [OF sym])

text \<open>
  The constructor \<^verbatim>\<open>Palette(ifstream&)\<close>. The four bytes of the tag are compared with the
  multi-character constant \<^verbatim>\<open>'0PIN'\<close>, which on the little-endian targets of the program
  is the byte sequence \<^verbatim>\<open>NIP0\<close> of the format comment (lines 29-33); with fewer than four
  bytes in the file the tag is not fully written. \<^verbatim>\<open>m_transparentColour\<close> is initialised to
  \<^verbatim>\<open>0xe3\<close> before the body runs, so a final read that stores nothing leaves that value.
  A file that is neither format leaves the palette empty and reports nothing.
\<close>

definition read_nip :: "ifstream \<Rightarrow> error + Palette" where
  "read_nip f1 =
     (case read_u8 f1 of (count_byte, f2) \<Rightarrow>
     (case read_u8 f2 of (flags_byte, f3) \<Rightarrow>
     (case count_byte of
        None \<Rightarrow> Inl IndeterminateRead
      | Some nc \<Rightarrow>
     (case flags_byte of
        None \<Rightarrow> Inl IndeterminateRead
      | Some flags \<Rightarrow>
          (let actualNumColours = (if nc \<noteq> 0 then unat nc else 256) in
           (case read_nip_entries actualNumColours flags f3 [] of
              Inl e \<Rightarrow> Inl e
            | Inr (colours, f4) \<Rightarrow>
                (case read_u8 f4 of (trans_byte, f5) \<Rightarrow>
                   Inr \<lparr>m_colours = colours,
                        m_transparentColour = (case trans_byte of None \<Rightarrow> 0xe3 | Some t \<Rightarrow> t)\<rparr>)))))))"

definition read_pal :: "ifstream \<Rightarrow> error + Palette" where
  "read_pal f1 =
     (case get_string (seekg_beg f1) [] of (line1, f2) \<Rightarrow>
        if line1 = ''JASC-PAL'' then
          (case get_string f2 line1 of (line2, f3) \<Rightarrow>
             if line2 = ''0100'' then
               (case get_string f3 line2 of (line3, f4) \<Rightarrow>
                  (case stoi line3 of
                     Inl e \<Rightarrow> Inl e
                   | Inr n \<Rightarrow>
                       (let num = nat (n mod 2 ^ 64) in
                        (case read_pal_loop num f4 0 [] of
                           Inl e \<Rightarrow> Inl e
                         | Inr colours \<Rightarrow>
                             if num \<noteq> length colours then Inl ColorCountMismatch
                             else Inr \<lparr>m_colours = colours, m_transparentColour = 0xe3\<rparr>))))
             else Inr \<lparr>m_colours = [], m_transparentColour = 0xe3\<rparr>)
        else Inr \<lparr>m_colours = [], m_transparentColour = 0xe3\<rparr>)"

definition Palette_ifstream :: "ifstream \<Rightarrow> error + Palette" where
  "Palette_ifstream f =
     (case istream_read f 4 of (tag, f1) \<Rightarrow>
        if length tag < 4 then Inl IndeterminateRead
        else if tag = ''NIP0'' then read_nip f1
        else read_pal f1)"

subsection \<open>Palette writer (main.cc, lines 242-273)\<close>

text \<open>
  The channels are promoted to \<^verbatim>\<open>int\<close> for the shifts and the result is narrowed to
  \<^verbatim>\<open>u8\<close>.
\<close>

definition pack_p1 :: "Colour \<Rightarrow> u8" where
  "pack_p1 colour =
     word_of_int (push_bit 5 (uint (m_red colour)) OR push_bit 2 (uint (m_green colour))
                  OR drop_bit 1 (uint (m_blue colour)))"

definition pack_p2 :: "Colour \<Rightarrow> u8" where
  "pack_p2 colour = m_blue colour AND 1"

text \<open>A \<^verbatim>\<open>u8\<close> as the byte \<^verbatim>\<open>f.write\<close> puts into the file.\<close>

definition byte_of :: "u8 \<Rightarrow> char" where
  "byte_of w = char_of (unat w)"

definition write_colour :: "bool \<Rightarrow> Colour \<Rightarrow> string" where
  "write_colour extended colour =
     (if extended then [byte_of (pack_p1 colour), byte_of (pack_p2 colour)]
      else [byte_of (pack_p1 colour)])"

definition header_numColours :: "Palette \<Rightarrow> u8" where
  "header_numColours p = of_nat (length (m_colours p) AND 0xff)"

definition Palette_write :: "Palette \<Rightarrow> bool \<Rightarrow> string" where
  "Palette_write p extended =
     ''NIP0'' @ [byte_of (header_numColours p), byte_of (if extended then 1 else 0)]
     @ concat (map (write_colour extended) (m_colours p))
     @ [byte_of (m_transparentColour p)]"

subsection \<open>Image converter (main.cc, lines 383-511)\<close>

text \<open>
  What \<^verbatim>\<open>stbi_load\<close> hands over: width, height and the pixels in row-major order, one
  32-bit word per pixel with red in the low byte and alpha in the high byte. The decoder
  reports positive dimensions, so they are natural numbers here.
\<close>

record Image =
  img_w :: nat
  img_h :: nat
  img_data :: "u32 list"

text \<open>\<^verbatim>\<open>kColour_3bit[c]\<close> for a channel \<open>c\<close> of a palette entry; the array has 8 elements.\<close>

definition kColour_3bit_at :: "u8 \<Rightarrow> int option" where
  "kColour_3bit_at c = (if unat c < 8 then Some (kColour_3bit ! unat c) else None)"

definition colour_point :: "Colour \<Rightarrow> (int \<times> int \<times> int) option" where
  "colour_point c =
     (case kColour_3bit_at (m_red c) of
        None \<Rightarrow> None
      | Some p10 \<Rightarrow>
          (case kColour_3bit_at (m_green c) of
             None \<Rightarrow> None
           | Some p11 \<Rightarrow>
               (case kColour_3bit_at (m_blue c) of
                  None \<Rightarrow> None
                | Some p12 \<Rightarrow> Some (p10, p11, p12))))"

text \<open>
  The search of lines 435-454. The source computes in \<^verbatim>\<open>float\<close>; every value that occurs is
  an integer of magnitude at most \<open>256\<^sup>3 = 2\<^sup>2\<^sup>4\<close> (a channel difference is at most 255 in
  magnitude, a sum of three squares at most 195075), and \<^verbatim>\<open>float\<close> represents these
  exactly, so the arithmetic is that of the integers. \<open>x\<close> is the index found so far,
  \<open>None\<close> while the variable \<^verbatim>\<open>x\<close> of the source has not been assigned; the assignment
  \<^verbatim>\<open>x = i\<close> narrows the \<^verbatim>\<open>int\<close> counter to \<^verbatim>\<open>u8\<close>.
\<close>

function nearest_loop :: "Palette \<Rightarrow> int \<Rightarrow> int \<Rightarrow> int \<Rightarrow> nat \<Rightarrow> int \<Rightarrow> u8 option \<Rightarrow> error + u8 option" where
  "nearest_loop p r g b i d x =
     (if i < numColours p then
        (if int i = uint (getTransColour p) then nearest_loop p r g b (Suc i) d x
         else
           (case colour_point (m_colours p ! i) of
              None \<Rightarrow> Inl OutOfBoundsRead
            | Some (p10, p11, p12) \<Rightarrow>
                (let dx = p10 - r; dy = p11 - g; dz = p12 - b;
                     dist = dx * dx + dy * dy + dz * dz
                 in if dist < d then nearest_loop p r g b (Suc i) dist (Some (of_nat i))
                    else nearest_loop p r g b (Suc i) d x)))
      else Inr x)"
  by pat_completeness auto
termination
  by (relation "measure (\<lambda>(p, r, g, b, i, d, x). numColours p - i)") auto

text \<open>Lines 422-425: the four channels of the pixel \<open>s\<close>.\<close>

definition pixel_a :: "u32 \<Rightarrow> u8" where
  "pixel_a s = ucast (drop_bit 24 (s AND 0xff000000))"

definition pixel_b :: "u32 \<Rightarrow> u8" where
  "pixel_b s = ucast (drop_bit 16 (s AND 0x00ff0000))"

definition pixel_g :: "u32 \<Rightarrow> u8" where
  "pixel_g s = ucast (drop_bit 8 (s AND 0x0000ff00))"

definition pixel_r :: "u32 \<Rightarrow> u8" where
  "pixel_r s = ucast (s AND 0x000000ff)"

text \<open>
  Lines 427-455: the index \<^verbatim>\<open>x\<close> of one pixel \<open>s\<close>. When the search assigns nothing, the
  packing that follows uses an indeterminate \<^verbatim>\<open>x\<close>.
\<close>

definition pixel_index :: "Palette \<Rightarrow> u32 \<Rightarrow> error + u8" where
  "pixel_index p s =
     (if pixel_a s \<noteq> 255 then Inr (getTransColour p)
      else
        (case nearest_loop p (uint (pixel_r s)) (uint (pixel_g s)) (uint (pixel_b s)) 0
                (256 * 256 * 256) None of
           Inl e \<Rightarrow> Inl e
         | Inr None \<Rightarrow> Inl IndeterminateRead
         | Inr (Some x) \<Rightarrow> Inr x))"

text \<open>
  The inner loop of lines 420-476 over the columns of one row: \<open>s\<close> is the offset of the
  pointer \<^verbatim>\<open>s\<close> into the pixel buffer, \<open>idx\<close> the byte under construction, \<open>dst\<close> the
  output vector. \<^verbatim>\<open>x << 4\<close> and \<^verbatim>\<open>idx + x\<close> are computed in \<^verbatim>\<open>int\<close> and narrowed to \<^verbatim>\<open>u8\<close>
  by the assignment.
\<close>

function col_loop :: "Palette \<Rightarrow> bool \<Rightarrow> Image \<Rightarrow> nat \<Rightarrow> nat \<Rightarrow> u8 \<Rightarrow> u8 list \<Rightarrow> error + nat \<times> u8 list" where
  "col_loop p bit4 img col s idx dst =
     (if col < img_w img then
        (if s < length (img_data img) then
           (case pixel_index p (img_data img ! s) of
              Inl e \<Rightarrow> Inl e
            | Inr x \<Rightarrow>
                if bit4 then
                  (if col mod 2 = 0 then
                     col_loop p bit4 img (Suc col) (Suc s) (word_of_int (push_bit 4 (uint x))) dst
                   else
                     col_loop p bit4 img (Suc col) (Suc s) (word_of_int (uint idx + uint x))
                       (dst @ [word_of_int (uint idx + uint x)]))
                else col_loop p bit4 img (Suc col) (Suc s) idx (dst @ [x]))
         else Inl OutOfBoundsRead)
      else Inr (s, dst))"
  by pat_completeness auto
termination
  by (relation "measure (\<lambda>(p, bit4, img, col, s, idx, dst). img_w img - col)") auto

text \<open>The outer loop of lines 416-477; \<^verbatim>\<open>idx\<close> starts at 0 in every row.\<close>

function row_loop :: "Palette \<Rightarrow> bool \<Rightarrow> Image \<Rightarrow> nat \<Rightarrow> nat \<Rightarrow> u8 list \<Rightarrow> error + u8 list" where
  "row_loop p bit4 img row s dst =
     (if row < img_h img then
        (case col_loop p bit4 img 0 s 0 dst of
           Inl e \<Rightarrow> Inl e
         | Inr (s', dst') \<Rightarrow> row_loop p bit4 img (Suc row) s' dst')
      else Inr dst)"
  by pat_completeness auto
termination
  by (relation "measure (\<lambda>(p, bit4, img, row, s, dst). img_h img - row)") auto

text \<open>
  The file written by lines 481-503: the header structure (4 bytes of tag, two \<^verbatim>\<open>u16\<close>
  fields stored in the byte order of the little-endian host) and the pixel data.
\<close>

record NimFile =
  hdr_id :: string
  hdr_width :: u16
  hdr_height :: u16
  nim_data :: "u8 list"

text \<open>
  \<^verbatim>\<open>process_image\<close>: \<open>loaded\<close> is the result of \<^verbatim>\<open>stbi_load\<close> (\<open>None\<close> for a null pointer),
  \<open>flag4\<close> the command-line flag \<^verbatim>\<open>-4\<close>, \<open>can_open\<close> whether the output file could be
  opened. The assignments \<^verbatim>\<open>hdr.width = w\<close> and \<^verbatim>\<open>hdr.height = h\<close> narrow an \<^verbatim>\<open>int\<close> to
  \<^verbatim>\<open>u16\<close>.
\<close>

definition process_image :: "Palette \<Rightarrow> Image option \<Rightarrow> bool \<Rightarrow> bool \<Rightarrow> error + NimFile" where
  "process_image p loaded flag4 can_open =
     (case loaded of
        None \<Rightarrow> Inl SourceImageLoadFailure
      | Some img \<Rightarrow>
          if flag4 \<and> numColours p > 16 then Inl PaletteTooLarge
          else if flag4 \<and> img_w img mod 2 = 1 then Inl OddWidthFor4Bit
          else
            (case row_loop p flag4 img 0 0 [] of
               Inl e \<Rightarrow> Inl e
             | Inr dst \<Rightarrow>
                 if \<not> ((\<not> flag4 \<and> length dst = img_w img * img_h img) \<or>
                        (flag4 \<and> length dst = img_w img * img_h img div 2))
                 then Inl AssertionFailed
                 else if can_open then
                   Inr \<lparr>hdr_id = ''NIM0'', hdr_width = of_nat (img_w img),
                        hdr_height = of_nat (img_h img), nim_data = dst\<rparr>
                 else Inl OutputWriteFailure))"

subsection \<open>Notions used to state the properties\<close>

text \<open>
  \<open>r\<close> is an index below \<open>n\<close> whose table entry is nearest to \<open>v\<close>, and every lower index
  is strictly farther: the nearest entry, the lowest index among equals.
\<close>

definition nearest_first :: "int list \<Rightarrow> nat \<Rightarrow> int \<Rightarrow> nat \<Rightarrow> bool" where
  "nearest_first tbl n v r \<longleftrightarrow>
     r < n \<and> (\<forall>j<n. \<bar>v - tbl ! r\<bar> \<le> \<bar>v - tbl ! j\<bar>) \<and> (\<forall>j<r. \<bar>v - tbl ! r\<bar> < \<bar>v - tbl ! j\<bar>)"

text \<open>
  The channels of every palette the program builds are below 8: the default palette, the
  unpacking of a \<^verbatim>\<open>.nip\<close> entry and \<^verbatim>\<open>gfxReduce3\<close> all produce 3-bit values.
\<close>

definition valid_colour :: "Colour \<Rightarrow> bool" where
  "valid_colour c \<longleftrightarrow> unat (m_red c) < 8 \<and> unat (m_green c) < 8 \<and> unat (m_blue c) < 8"

text \<open>
  The squared Euclidean distance between a palette entry, each channel expanded through
  \<^verbatim>\<open>kColour_3bit\<close>, and the raw channels \<open>r\<close>, \<open>g\<close>, \<open>b\<close> of a pixel.
\<close>

definition sq_dist :: "Colour \<Rightarrow> int \<Rightarrow> int \<Rightarrow> int \<Rightarrow> int" where
  "sq_dist c r g b =
     (kColour_3bit ! unat (m_red c) - r) * (kColour_3bit ! unat (m_red c) - r)
     + (kColour_3bit ! unat (m_green c) - g) * (kColour_3bit ! unat (m_green c) - g)
     + (kColour_3bit ! unat (m_blue c) - b) * (kColour_3bit ! unat (m_blue c) - b)"

text \<open>The entries the search considers: all but the one at the transparent index.\<close>

definition candidate :: "Palette \<Rightarrow> nat \<Rightarrow> bool" where
  "candidate p j \<longleftrightarrow> j < numColours p \<and> int j \<noteq> uint (getTransColour p)"

definition nearest_entry :: "Palette \<Rightarrow> int \<Rightarrow> int \<Rightarrow> int \<Rightarrow> nat \<Rightarrow> bool" where
  "nearest_entry p r g b k \<longleftrightarrow>
     candidate p k
     \<and> (\<forall>j. candidate p j \<longrightarrow> sq_dist (m_colours p ! k) r g b \<le> sq_dist (m_colours p ! j) r g b)
     \<and> (\<forall>j<k. candidate p j \<longrightarrow> sq_dist (m_colours p ! k) r g b < sq_dist (m_colours p ! j) r g b)"

text \<open>
  The state of the search before iteration \<open>i\<close>: nothing found yet, or the entry \<open>k\<close>
  found, of which \<^verbatim>\<open>x\<close> holds the index narrowed to \<^verbatim>\<open>u8\<close>.
\<close>

definition found_at :: "Palette \<Rightarrow> int \<Rightarrow> int \<Rightarrow> int \<Rightarrow> nat \<Rightarrow> int \<Rightarrow> nat \<Rightarrow> bool" where
  "found_at p r g b i d k \<longleftrightarrow>
     k < i \<and> candidate p k \<and> d = sq_dist (m_colours p ! k) r g b
     \<and> (\<forall>j<i. candidate p j \<longrightarrow> d \<le> sq_dist (m_colours p ! j) r g b)
     \<and> (\<forall>j<k. candidate p j \<longrightarrow> d < sq_dist (m_colours p ! j) r g b)"

definition search_inv :: "Palette \<Rightarrow> int \<Rightarrow> int \<Rightarrow> int \<Rightarrow> nat \<Rightarrow> int \<Rightarrow> u8 option \<Rightarrow> bool" where
  "search_inv p r g b i d x \<longleftrightarrow>
     (case x of
        None \<Rightarrow> d = 256 * 256 * 256 \<and> (\<forall>j<i. \<not> candidate p j)
      | Some w \<Rightarrow> (\<exists>k. w = of_nat k \<and> found_at p r g b i d k))"

text \<open>
  The indices of a sequence of pixels, one call of \<open>pixel_index\<close> each, stopping at the
  first failure; and the bytes made of consecutive pairs of indices.
\<close>

fun pixel_indices :: "Palette \<Rightarrow> u32 list \<Rightarrow> error + u8 list" where
  "pixel_indices p [] = Inr []"
| "pixel_indices p (s # ss) =
     (case pixel_index p s of
        Inl e \<Rightarrow> Inl e
      | Inr x \<Rightarrow> (case pixel_indices p ss of Inl e \<Rightarrow> Inl e | Inr xs \<Rightarrow> Inr (x # xs)))"

fun pack4 :: "u8 list \<Rightarrow> u8 list" where
  "pack4 (a # b # xs) = (push_bit 4 a + b) # pack4 xs"
| "pack4 xs = []"

text \<open>
  What the inner loop appends for the indices \<open>xs\<close> of the columns from \<open>col\<close> on, with
  \<open>idx\<close> the byte under construction.
\<close>

definition emit :: "bool \<Rightarrow> nat \<Rightarrow> u8 \<Rightarrow> u8 list \<Rightarrow> u8 list" where
  "emit bit4 col idx xs =
     (if \<not> bit4 then xs
      else if col mod 2 = 0 then pack4 xs
      else (case xs of [] \<Rightarrow> [] | x # r \<Rightarrow> (idx + x) # pack4 r))"

text \<open>
  A palette of six entries whose transparent index is 5, for the examples. Entries 2, 3
  and 5 differ in blue only or in red only.
\<close>

definition example_palette :: Palette where
  "example_palette =
     \<lparr>m_colours =
        [\<lparr>m_red = 0, m_green = 0, m_blue = 0\<rparr>, \<lparr>m_red = 1, m_green = 0, m_blue = 0\<rparr>,
         \<lparr>m_red = 1, m_green = 0, m_blue = 6\<rparr>, \<lparr>m_red = 0, m_green = 0, m_blue = 7\<rparr>,
         \<lparr>m_red = 7, m_green = 7, m_blue = 7\<rparr>, \<lparr>m_red = 1, m_green = 0, m_blue = 7\<rparr>],
      m_transparentColour = 5\<rparr>"

text \<open>
  A palette of 257 entries, 256 times black and then white, with the transparent index
  the reader of JASC-PAL files sets (\<^verbatim>\<open>0xe3\<close>).
\<close>

definition oversized_palette :: Palette where
  "oversized_palette =
     \<lparr>m_colours = replicate 256 \<lparr>m_red = 0, m_green = 0, m_blue = 0\<rparr> @ [\<lparr>m_red = 7, m_green = 7, m_blue = 7\<rparr>],
      m_transparentColour = 0xe3\<rparr>"

text \<open>
  What reading back gives for an entry that was written: the unpacking of its first
  byte, with its second byte in extended mode and with the derived bit in standard mode.
\<close>

definition reread_colour :: "bool \<Rightarrow> Colour \<Rightarrow> Colour" where
  "reread_colour extended c =
     unpack_colour (pack_p1 c)
       (if extended then pack_p2 c else drop_bit 1 (pack_p1 c AND 2) OR (pack_p1 c AND 1))"


text \<open>A palette of two entries, for the examples.\<close>

definition two_colours :: Palette where
  "two_colours = \<lparr>m_colours = [\<lparr>m_red = 7, m_green = 5, m_blue = 6\<rparr>, \<lparr>m_red = 1, m_green = 2, m_blue = 3\<rparr>],
                   m_transparentColour = 0xe3\<rparr>"

text \<open>
  A JASC-PAL file as text: a number in decimal, a line of three numbers, and the file
  with its two header tokens, the declared count and one line per triple. The file ends
  with the last digit of the last triple.
\<close>

function dec :: "nat \<Rightarrow> string" where
  "dec n = (if n < 10 then [char_of (48 + n)] else dec (n div 10) @ [char_of (48 + n mod 10)])"
  by pat_completeness auto
termination
  by (relation "measure id") auto

definition pal_line :: "nat \<times> nat \<times> nat \<Rightarrow> string" where
  "pal_line t = (case t of (r, g, b) \<Rightarrow> CHR 0x0A # dec r @ CHR '' '' # dec g @ CHR '' '' # dec b)"

definition pal_text :: "nat \<Rightarrow> (nat \<times> nat \<times> nat) list \<Rightarrow> string" where
  "pal_text num ts = ''JASC-PAL'' @ CHR 0x0A # ''0100'' @ CHR 0x0A # dec num @ concat (map pal_line ts)"

text \<open>The palette entry made of a triple of a JASC-PAL file (line 216).\<close>

definition quantize :: "nat \<times> nat \<times> nat \<Rightarrow> Colour" where
  "quantize t = (case t of (r, g, b) \<Rightarrow>
     \<lparr>m_red = gfxReduce3 (of_nat r), m_green = gfxReduce3 (of_nat g), m_blue = gfxReduce3 (of_nat b)\<rparr>)"

definition valid_triple :: "nat \<times> nat \<times> nat \<Rightarrow> bool" where
  "valid_triple t \<longleftrightarrow> (case t of (r, g, b) \<Rightarrow> r \<le> 255 \<and> g \<le> 255 \<and> b \<le> 255)"

text \<open>What may follow a token: the end of the file or white space.\<close>

definition delimited :: "string \<Rightarrow> bool" where
  "delimited r \<longleftrightarrow> (case r of [] \<Rightarrow> True | c # _ \<Rightarrow> isspace c)"

declare dec.simps [simp del]
declare reduce_loop.simps [simp del]
declare read_pal_loop.simps [simp del]
declare nearest_loop.simps [simp del]
declare col_loop.simps [simp del]
declare row_loop.simps [simp del]

section \<open>Properties\<close>

subsection \<open>Colour quantizer\<close>

lemma reduce_loop_inv:
  assumes "i \<le> n" "minIdx < i" "minDiff = \<bar>v - tbl ! minIdx\<bar>" "0 < minDiff"
    "\<forall>j<i. minDiff \<le> \<bar>v - tbl ! j\<bar>" "\<forall>j<minIdx. minDiff < \<bar>v - tbl ! j\<bar>"
  shows "nearest_first tbl n v (reduce_loop tbl n v i minIdx minDiff)"
  using assms
proof (induction tbl n v i minIdx minDiff rule: reduce_loop.induct)
  case (1 tbl n v i minIdx minDiff)
  show ?case
  proof (cases "i < n")
    case False
    with "1.prems" have "i = n" by simp
    with False "1.prems" show ?thesis
      by (subst reduce_loop.simps) (simp add: nearest_first_def)
  next
    case True
    define diff where "diff = \<bar>v - tbl ! i\<bar>"
    consider (zero) "diff = 0" | (less) "diff \<noteq> 0" "diff < minDiff" | (keep) "diff \<noteq> 0" "\<not> diff < minDiff"
      by blast
    then show ?thesis
    proof cases
      case zero
      then have r: "reduce_loop tbl n v i minIdx minDiff = i"
        using True by (subst reduce_loop.simps) (simp add: diff_def)
      have "\<forall>j<i. \<bar>v - tbl ! i\<bar> < \<bar>v - tbl ! j\<bar>"
        using "1.prems" zero by (fastforce simp: diff_def)
      then show ?thesis
        using True zero unfolding r nearest_first_def diff_def by simp
    next
      case less
      then have r: "reduce_loop tbl n v i minIdx minDiff = reduce_loop tbl n v (Suc i) i diff"
        using True by (subst reduce_loop.simps) (simp add: diff_def Let_def)
      have "nearest_first tbl n v (reduce_loop tbl n v (Suc i) i diff)"
      proof (rule "1.IH"(1) [OF True diff_def])
        show "0 \<noteq> diff" using less by simp
        show "diff < minDiff" by (rule less)
        show "Suc i \<le> n" using True by simp
        show "i < Suc i" by simp
        show "diff = \<bar>v - tbl ! i\<bar>" by (rule diff_def)
        show "0 < diff" using less by (simp add: diff_def)
        show "\<forall>j<Suc i. diff \<le> \<bar>v - tbl ! j\<bar>"
          using "1.prems" less by (auto simp: less_Suc_eq diff_def)
        show "\<forall>j<i. diff < \<bar>v - tbl ! j\<bar>"
          using "1.prems" less by fastforce
      qed
      then show ?thesis by (simp only: r)
    next
      case keep
      then have r: "reduce_loop tbl n v i minIdx minDiff = reduce_loop tbl n v (Suc i) minIdx minDiff"
        using True by (subst reduce_loop.simps) (simp add: diff_def Let_def)
      have "nearest_first tbl n v (reduce_loop tbl n v (Suc i) minIdx minDiff)"
      proof (rule "1.IH"(2) [OF True diff_def])
        show "0 \<noteq> diff" using keep by simp
        show "\<not> diff < minDiff" using keep by simp
        show "Suc i \<le> n" using True by simp
        show "minIdx < Suc i" using "1.prems" by simp
        show "minDiff = \<bar>v - tbl ! minIdx\<bar>" using "1.prems" by simp
        show "0 < minDiff" using "1.prems" by simp
        show "\<forall>j<Suc i. minDiff \<le> \<bar>v - tbl ! j\<bar>"
          using "1.prems" keep by (auto simp: less_Suc_eq diff_def)
        show "\<forall>j<minIdx. minDiff < \<bar>v - tbl ! j\<bar>"
          using "1.prems" by simp
      qed
      then show ?thesis by (simp only: r)
    qed
  qed
qed

lemma reduce_loop_start:
  assumes "0 < n" "tbl ! 0 = 0" "0 \<le> v" "v \<le> 255"
  shows "nearest_first tbl n v (reduce_loop tbl n v 0 0 255)"
proof (cases "v = 0")
  case True
  then have "reduce_loop tbl n v 0 0 255 = 0"
    using assms by (subst reduce_loop.simps) simp
  then show ?thesis using True assms by (simp add: nearest_first_def)
next
  case False
  have "reduce_loop tbl n v 0 0 255 = reduce_loop tbl n v (Suc 0) 0 v"
  proof (cases "v < 255")
    case True
    then show ?thesis using False assms by (subst reduce_loop.simps) simp
  next
    case False
    then have "v = 255" using assms by simp
    then show ?thesis using assms by (subst reduce_loop.simps) simp
  qed
  moreover have "nearest_first tbl n v (reduce_loop tbl n v (Suc 0) 0 v)"
    by (rule reduce_loop_inv) (use assms False in auto)
  ultimately show ?thesis by simp
qed

lemma nearest_first_bound: "nearest_first tbl n v r \<Longrightarrow> r < n"
  by (simp add: nearest_first_def)

text \<open>
  C3. For every byte \<open>v\<close>, \<open>gfxReduce3 v\<close> is the index in 0..7 of the entry of
  \<open>{0, 36, 73, 109, 146, 182, 219, 255}\<close> nearest to \<open>v\<close>, and \<open>gfxReduce2 v\<close> the index in
  0..3 of the entry of \<open>{0, 85, 170, 255}\<close> nearest to \<open>v\<close>; of two entries equally near the
  lower index is returned. Both functions are total: they have a value at every byte.
\<close>

theorem gfxReduce_nearest_lowest_index:
  "kColour_3bit = [0, 36, 73, 109, 146, 182, 219, 255]
   \<and> kColour_2bit = [0, 85, 170, 255]
   \<and> nearest_first kColour_3bit 8 (uint v) (unat (gfxReduce3 v))
   \<and> nearest_first kColour_2bit 4 (uint v) (unat (gfxReduce2 v))"
proof -
  have r: "0 \<le> uint v" "uint v \<le> 255"
    using uint_lt2p [of v] by simp_all
  have 3: "nearest_first kColour_3bit 8 (uint v) (reduce_loop kColour_3bit 8 (uint v) 0 0 255)"
    using r by (intro reduce_loop_start) (simp_all add: kColour_3bit_def)
  have 2: "nearest_first kColour_2bit 4 (uint v) (reduce_loop kColour_2bit 4 (uint v) 0 0 255)"
    using r by (intro reduce_loop_start) (simp_all add: kColour_2bit_def)
  have "unat (gfxReduce3 v) = reduce_loop kColour_3bit 8 (uint v) 0 0 255"
    using nearest_first_bound [OF 3] by (simp add: gfxReduce3_def unat_of_nat)
  moreover have "unat (gfxReduce2 v) = reduce_loop kColour_2bit 4 (uint v) 0 0 255"
    using nearest_first_bound [OF 2] by (simp add: gfxReduce2_def unat_of_nat)
  ultimately show ?thesis
    using 2 3 by (simp add: kColour_3bit_def kColour_2bit_def)
qed

theorem gfxReduce_nearest_lowest_index_witness:
  "nearest_first kColour_3bit 8 (uint (18 :: u8)) (unat (gfxReduce3 18))
   \<and> nearest_first kColour_2bit 4 (uint (128 :: u8)) (unat (gfxReduce2 128))
   \<and> gfxReduce3 18 = 0 \<and> \<bar>18 - kColour_3bit ! 0\<bar> = \<bar>18 - kColour_3bit ! 1\<bar>
   \<and> gfxReduce2 128 = 2"
proof -
  have 1: "nearest_first kColour_3bit 8 (uint (18 :: u8)) (unat (gfxReduce3 18))"
    using gfxReduce_nearest_lowest_index [of 18] by (elim conjE)
  have 2: "nearest_first kColour_2bit 4 (uint (128 :: u8)) (unat (gfxReduce2 128))"
    using gfxReduce_nearest_lowest_index [of 128] by (elim conjE)
  have 3: "gfxReduce3 18 = 0"
    by (simp add: gfxReduce3_def kColour_3bit_def reduce_loop.simps)
  have 4: "\<bar>18 - kColour_3bit ! 0\<bar> = \<bar>18 - kColour_3bit ! 1\<bar>"
    by (simp add: kColour_3bit_def)
  have 5: "gfxReduce2 128 = 2"
    by (simp add: gfxReduce2_def kColour_2bit_def reduce_loop.simps)
  show ?thesis by (intro conjI 1 2 3 4 5)
qed

subsection \<open>Classification of one pixel\<close>

lemma kColour_3bit_range: "k < 8 \<Longrightarrow> 0 \<le> kColour_3bit ! k \<and> kColour_3bit ! k \<le> 255"
proof -
  assume "k < 8"
  then consider "k = 0" | "k = 1" | "k = 2" | "k = 3" | "k = 4" | "k = 5" | "k = 6" | "k = 7"
    by linarith
  then show ?thesis
    by cases (simp_all add: kColour_3bit_def)
qed

lemma square_bound:
  fixes x :: int
  assumes "\<bar>x\<bar> \<le> 255"
  shows "0 \<le> x * x \<and> x * x \<le> 65025"
proof -
  have "\<bar>x\<bar> * \<bar>x\<bar> \<le> 255 * 255"
    using assms by (intro mult_mono) simp_all
  then show ?thesis by (simp add: abs_mult_self_eq)
qed

lemma sq_dist_bound:
  assumes "valid_colour c" "0 \<le> r" "r \<le> 255" "0 \<le> g" "g \<le> 255" "0 \<le> b" "b \<le> 255"
  shows "sq_dist c r g b < 256 * 256 * 256"
proof -
  have "\<bar>kColour_3bit ! unat (m_red c) - r\<bar> \<le> 255"
    using kColour_3bit_range [of "unat (m_red c)"] assms by (simp add: valid_colour_def abs_le_iff)
  moreover have "\<bar>kColour_3bit ! unat (m_green c) - g\<bar> \<le> 255"
    using kColour_3bit_range [of "unat (m_green c)"] assms by (simp add: valid_colour_def abs_le_iff)
  moreover have "\<bar>kColour_3bit ! unat (m_blue c) - b\<bar> \<le> 255"
    using kColour_3bit_range [of "unat (m_blue c)"] assms by (simp add: valid_colour_def abs_le_iff)
  ultimately show ?thesis
    unfolding sq_dist_def
    using square_bound [of "kColour_3bit ! unat (m_red c) - r"]
      square_bound [of "kColour_3bit ! unat (m_green c) - g"]
      square_bound [of "kColour_3bit ! unat (m_blue c) - b"]
    by linarith
qed

lemma colour_point_valid:
  "valid_colour c \<Longrightarrow>
   colour_point c = Some (kColour_3bit ! unat (m_red c), kColour_3bit ! unat (m_green c),
                          kColour_3bit ! unat (m_blue c))"
  by (simp add: colour_point_def kColour_3bit_at_def valid_colour_def)

lemma found_at_Suc_skip:
  "found_at p r g b i d k \<Longrightarrow> \<not> candidate p i \<Longrightarrow> found_at p r g b (Suc i) d k"
  by (auto simp: found_at_def less_Suc_eq)

lemma found_at_Suc_keep:
  "found_at p r g b i d k \<Longrightarrow> \<not> sq_dist (m_colours p ! i) r g b < d \<Longrightarrow> found_at p r g b (Suc i) d k"
  by (auto simp: found_at_def less_Suc_eq)

lemma found_at_Suc_new:
  assumes "candidate p i" "sq_dist (m_colours p ! i) r g b < d"
    and "x = None \<longrightarrow> (\<forall>j<i. \<not> candidate p j)"
    and "\<forall>w. x = Some w \<longrightarrow> (\<exists>k. found_at p r g b i d k)"
  shows "found_at p r g b (Suc i) (sq_dist (m_colours p ! i) r g b) i"
proof (cases x)
  case None
  then show ?thesis using assms by (auto simp: found_at_def less_Suc_eq)
next
  case (Some w)
  then obtain k where "found_at p r g b i d k" using assms(4) by blast
  then show ?thesis using assms(1,2) by (fastforce simp: found_at_def less_Suc_eq)
qed

lemma nearest_loop_inv:
  assumes "\<forall>c\<in>set (m_colours p). valid_colour c"
    "0 \<le> r" "r \<le> 255" "0 \<le> g" "g \<le> 255" "0 \<le> b" "b \<le> 255"
    "i \<le> numColours p" "search_inv p r g b i d x"
  shows "\<exists>d' x'. nearest_loop p r g b i d x = Inr x' \<and> search_inv p r g b (numColours p) d' x'"
  using assms
proof (induction p r g b i d x rule: nearest_loop.induct)
  case (1 p r g b i d x)
  note wf = "1.prems"(1-7) and inv = "1.prems"(9)
  show ?case
  proof (cases "i < numColours p")
    case False
    with "1.prems"(8) have "i = numColours p" by simp
    with inv False show ?thesis by (subst nearest_loop.simps) auto
  next
    case True
    show ?thesis
    proof (cases "int i = uint (getTransColour p)")
      case trans: True
      have nc: "\<not> candidate p i" using trans by (simp add: candidate_def)
      have "search_inv p r g b (Suc i) d x"
        using inv nc
        by (auto simp: search_inv_def less_Suc_eq found_at_Suc_skip split: option.splits)
      then have "\<exists>d' x'. nearest_loop p r g b (Suc i) d x = Inr x' \<and> search_inv p r g b (numColours p) d' x'"
        using "1.IH"(1) [OF True trans wf] True by simp
      then show ?thesis using True trans by (subst nearest_loop.simps) simp
    next
      case notrans: False
      have cand: "candidate p i" using True notrans by (simp add: candidate_def)
      have vc: "valid_colour (m_colours p ! i)"
        using wf(1) True by (simp add: numColours_def)
      define dist where "dist = sq_dist (m_colours p ! i) r g b"
      have cp: "colour_point (m_colours p ! i) =
                  Some (kColour_3bit ! unat (m_red (m_colours p ! i)),
                        kColour_3bit ! unat (m_green (m_colours p ! i)),
                        kColour_3bit ! unat (m_blue (m_colours p ! i)))"
        using vc by (rule colour_point_valid)
      have small: "dist < 256 * 256 * 256"
        unfolding dist_def using vc wf(2-7) by (rule sq_dist_bound)
      show ?thesis
      proof (cases "dist < d")
        case less: True
        have step: "nearest_loop p r g b i d x = nearest_loop p r g b (Suc i) dist (Some (of_nat i))"
          using True notrans less cp by (subst nearest_loop.simps) (simp add: dist_def sq_dist_def Let_def)
        have "found_at p r g b (Suc i) dist i"
          unfolding dist_def
          using cand less inv
          by (intro found_at_Suc_new [of p i r g b d x]) (auto simp: dist_def search_inv_def)
        then have "search_inv p r g b (Suc i) dist (Some (of_nat i))"
          by (auto simp: search_inv_def)
        then have "\<exists>d' x'. nearest_loop p r g b (Suc i) dist (Some (of_nat i)) = Inr x'
                    \<and> search_inv p r g b (numColours p) d' x'"
          using "1.IH"(2) [OF True notrans cp refl refl refl refl refl refl _ wf] less True
          by (simp add: dist_def sq_dist_def Let_def)
        then show ?thesis by (simp only: step)
      next
        case keep: False
        have step: "nearest_loop p r g b i d x = nearest_loop p r g b (Suc i) d x"
          using True notrans keep cp by (subst nearest_loop.simps) (simp add: dist_def sq_dist_def Let_def)
        have "x \<noteq> None"
          using inv keep small by (cases x) (auto simp: search_inv_def)
        then have "search_inv p r g b (Suc i) d x"
          using inv keep
          by (auto simp: search_inv_def dist_def found_at_Suc_keep split: option.splits)
        then have "\<exists>d' x'. nearest_loop p r g b (Suc i) d x = Inr x'
                    \<and> search_inv p r g b (numColours p) d' x'"
          using "1.IH"(3) [OF True notrans cp refl refl refl refl refl refl _ wf] keep True
          by (simp add: dist_def sq_dist_def Let_def)
        then show ?thesis by (simp only: step)
      qed
    qed
  qed
qed

lemma pixel_index_transparent: "pixel_a s \<noteq> 255 \<Longrightarrow> pixel_index p s = Inr (getTransColour p)"
  by (simp add: pixel_index_def)

lemma pixel_index_opaque:
  assumes "\<forall>c\<in>set (m_colours p). valid_colour c" "\<exists>i. candidate p i" "pixel_a s = 255"
  shows "\<exists>k. nearest_entry p (uint (pixel_r s)) (uint (pixel_g s)) (uint (pixel_b s)) k
           \<and> pixel_index p s = Inr (of_nat k)"
proof -
  define r g b where "r = uint (pixel_r s)" and "g = uint (pixel_g s)" and "b = uint (pixel_b s)"
  have rng: "0 \<le> r" "r \<le> 255" "0 \<le> g" "g \<le> 255" "0 \<le> b" "b \<le> 255"
    using uint_lt2p [of "pixel_r s"] uint_lt2p [of "pixel_g s"] uint_lt2p [of "pixel_b s"]
    by (simp_all add: r_def g_def b_def)
  have "search_inv p r g b 0 (256 * 256 * 256) None"
    by (simp add: search_inv_def)
  then obtain d' x' where run: "nearest_loop p r g b 0 (256 * 256 * 256) None = Inr x'"
      and inv: "search_inv p r g b (numColours p) d' x'"
    using nearest_loop_inv [OF assms(1) rng, of 0 "256 * 256 * 256" None] by auto
  from assms(2) obtain i where i: "candidate p i" ..
  then have "i < numColours p" by (simp add: candidate_def)
  with i inv obtain k where w: "x' = Some (of_nat k)" and f: "found_at p r g b (numColours p) d' k"
    by (cases x') (auto simp: search_inv_def)
  have "nearest_entry p r g b k"
    using f unfolding found_at_def nearest_entry_def
    by (auto simp: candidate_def)
  moreover have "pixel_index p s = Inr (of_nat k)"
    using run assms(3) by (simp add: pixel_index_def w r_def g_def b_def)
  ultimately show ?thesis by (auto simp: r_def g_def b_def)
qed

lemma nearest_entry_unique:
  assumes "nearest_entry p r g b k" "nearest_entry p r g b k'"
  shows "k = k'"
proof (rule ccontr)
  assume "k \<noteq> k'"
  then consider "k < k'" | "k' < k" by linarith
  then show False
  proof cases
    case 1
    then have "sq_dist (m_colours p ! k') r g b < sq_dist (m_colours p ! k) r g b"
      using assms by (simp add: nearest_entry_def)
    moreover have "sq_dist (m_colours p ! k) r g b \<le> sq_dist (m_colours p ! k') r g b"
      using assms by (simp add: nearest_entry_def)
    ultimately show False by simp
  next
    case 2
    then have "sq_dist (m_colours p ! k) r g b < sq_dist (m_colours p ! k') r g b"
      using assms by (simp add: nearest_entry_def)
    moreover have "sq_dist (m_colours p ! k') r g b \<le> sq_dist (m_colours p ! k) r g b"
      using assms by (simp add: nearest_entry_def)
    ultimately show False by simp
  qed
qed

subsection \<open>Rows and columns of the image\<close>

lemma narrow_shift: "(word_of_int (push_bit 4 (uint x)) :: u8) = push_bit 4 x"
  by (simp add: push_bit_eq_mult)

lemma narrow_add: "(word_of_int (uint idx + uint x) :: u8) = idx + x"
  by simp

lemma take_drop_step:
  assumes "col < w" "s < length xs"
  shows "take (w - col) (drop s xs) = xs ! s # take (w - Suc col) (drop (Suc s) xs)"
proof -
  have "w - col = Suc (w - Suc col)" using assms by simp
  then show ?thesis using assms by (simp add: Cons_nth_drop_Suc [symmetric])
qed

lemma col_loop_char:
  assumes "col \<le> img_w img" "s + (img_w img - col) \<le> length (img_data img)"
  shows "col_loop p bit4 img col s idx dst =
           (case pixel_indices p (take (img_w img - col) (drop s (img_data img))) of
              Inl e \<Rightarrow> Inl e
            | Inr xs \<Rightarrow> Inr (s + (img_w img - col), dst @ emit bit4 col idx xs))"
  using assms
proof (induction p bit4 img col s idx dst rule: col_loop.induct)
  case (1 p bit4 img col s idx dst)
  show ?case
  proof (cases "col < img_w img")
    case False
    then show ?thesis
      by (subst col_loop.simps) (simp add: emit_def)
  next
    case True
    then have s: "s < length (img_data img)" using "1.prems" by simp
    note td = take_drop_step [OF True s]
    have next_ok: "Suc col \<le> img_w img" "Suc s + (img_w img - Suc col) \<le> length (img_data img)"
      using True "1.prems" by simp_all
    show ?thesis
    proof (cases "pixel_index p (img_data img ! s)")
      case (Inl e)
      then show ?thesis using True s by (subst col_loop.simps) (simp add: td)
    next
      case (Inr x)
      show ?thesis
      proof (cases bit4)
        case False
        show ?thesis
          using True s Inr False "1.IH"(3) [OF True s Inr False next_ok]
          by (subst col_loop.simps) (simp add: td emit_def split: sum.splits)
      next
        case b4: True
        show ?thesis
        proof (cases "col mod 2 = 0")
          case even: True
          then have odd: "Suc col mod 2 \<noteq> 0" by presburger
          show ?thesis
            using True s Inr b4 even odd "1.IH"(1) [OF True s Inr b4 even next_ok]
            by (subst col_loop.simps)
              (simp add: td emit_def narrow_shift split: sum.splits list.splits)
        next
          case odd: False
          then have even: "Suc col mod 2 = 0" by presburger
          show ?thesis
            using True s Inr b4 even odd "1.IH"(2) [OF True s Inr b4 odd next_ok]
            by (subst col_loop.simps)
              (simp add: td emit_def narrow_add split: sum.splits list.splits)
        qed
      qed
    qed
  qed
qed

lemma pixel_indices_append:
  "pixel_indices p (ss @ ts) =
     (case pixel_indices p ss of
        Inl e \<Rightarrow> Inl e
      | Inr xs \<Rightarrow> (case pixel_indices p ts of Inl e \<Rightarrow> Inl e | Inr ys \<Rightarrow> Inr (xs @ ys)))"
  by (induction ss) (auto split: sum.splits)

lemma pixel_indices_length: "pixel_indices p ss = Inr xs \<Longrightarrow> length xs = length ss"
  by (induction ss arbitrary: xs) (auto split: sum.splits)

lemma pixel_indices_nth:
  "pixel_indices p ss = Inr xs \<Longrightarrow> k < length ss \<Longrightarrow> pixel_index p (ss ! k) = Inr (xs ! k)"
proof (induction ss arbitrary: xs k)
  case Nil
  then show ?case by simp
next
  case (Cons s ss)
  then show ?case by (cases k) (auto split: sum.splits)
qed

lemma pixel_indices_total:
  "\<forall>s\<in>set ss. \<exists>x. pixel_index p s = Inr x \<Longrightarrow> \<exists>xs. pixel_indices p ss = Inr xs"
  by (induction ss) auto

lemma pixel_indices_replicate:
  "pixel_index p s = Inr x \<Longrightarrow> pixel_indices p (replicate n s) = Inr (replicate n x)"
  by (induction n) simp_all

lemma pack4_append: "even (length xs) \<Longrightarrow> pack4 (xs @ ys) = pack4 xs @ pack4 ys"
  by (induction xs rule: pack4.induct) auto

lemma length_pack4: "length (pack4 xs) = length xs div 2"
  by (induction xs rule: pack4.induct) auto

lemma pack4_nth: "2 * j + 1 < length xs \<Longrightarrow> pack4 xs ! j = push_bit 4 (xs ! (2 * j)) + xs ! (2 * j + 1)"
proof (induction xs arbitrary: j rule: pack4.induct)
  case (1 a b xs)
  then show ?case by (cases j) auto
qed auto

lemma emit_append:
  assumes "bit4 \<longrightarrow> even (length xs)"
  shows "emit bit4 0 0 (xs @ ys) = emit bit4 0 0 xs @ emit bit4 0 0 ys"
  using assms by (simp add: emit_def pack4_append)

lemma take_add_drop: "take (a + b) (drop s xs) = take a (drop s xs) @ take b (drop (s + a) xs)"
  by (simp add: take_add add.commute)

lemma row_loop_char:
  assumes "s + (img_h img - row) * img_w img \<le> length (img_data img)"
    "bit4 \<longrightarrow> even (img_w img)"
  shows "row_loop p bit4 img row s dst =
           (case pixel_indices p (take ((img_h img - row) * img_w img) (drop s (img_data img))) of
              Inl e \<Rightarrow> Inl e
            | Inr xs \<Rightarrow> Inr (dst @ emit bit4 0 0 xs))"
  using assms
proof (induction p bit4 img row s dst rule: row_loop.induct)
  case (1 p bit4 img row s dst)
  show ?case
  proof (cases "row < img_h img")
    case False
    then show ?thesis by (subst row_loop.simps) (simp add: emit_def)
  next
    case True
    define w where "w = img_w img"
    have split: "(img_h img - row) * w = w + (img_h img - Suc row) * w"
      using True by (metis Suc_diff_Suc mult_Suc)
    have room: "s + (w - 0) \<le> length (img_data img)"
      using "1.prems"(1) split by (simp add: w_def)
    have cl: "col_loop p bit4 img 0 s 0 dst =
           (case pixel_indices p (take w (drop s (img_data img))) of
              Inl e \<Rightarrow> Inl e
            | Inr xs \<Rightarrow> Inr (s + w, dst @ emit bit4 0 0 xs))"
      using col_loop_char [of 0 img s p bit4 0 dst] room by (simp add: w_def cong: sum.case_cong)
    show ?thesis
    proof (cases "pixel_indices p (take w (drop s (img_data img)))")
      case (Inl e)
      then show ?thesis
        using True cl
        by (subst row_loop.simps) (simp add: split take_add_drop pixel_indices_append w_def [symmetric])
    next
      case (Inr xs)
      have len: "length xs = w"
        using pixel_indices_length [OF Inr] room by simp
      have rest_ok: "s + w + (img_h img - Suc row) * img_w img \<le> length (img_data img)"
        using "1.prems"(1) split by (simp add: w_def)
      have ih: "row_loop p bit4 img (Suc row) (s + w) (dst @ emit bit4 0 0 xs) =
           (case pixel_indices p (take ((img_h img - Suc row) * img_w img) (drop (s + w) (img_data img))) of
              Inl e \<Rightarrow> Inl e
            | Inr ys \<Rightarrow> Inr ((dst @ emit bit4 0 0 xs) @ emit bit4 0 0 ys))"
        using "1.IH" [OF True _ refl rest_ok "1.prems"(2)] cl Inr by simp
      have ev: "bit4 \<longrightarrow> even (length xs)"
        using "1.prems"(2) len by (simp add: w_def)
      show ?thesis
        using True cl Inr ih
        by (subst row_loop.simps)
          (simp add: split take_add_drop pixel_indices_append w_def [symmetric] emit_append [OF ev]
             split: sum.splits)
    qed
  qed
qed

lemma process_image_char:
  assumes "img_w img * img_h img \<le> length (img_data img)"
  shows "process_image p (Some img) flag4 can_open =
     (if flag4 \<and> numColours p > 16 then Inl PaletteTooLarge
      else if flag4 \<and> img_w img mod 2 = 1 then Inl OddWidthFor4Bit
      else
        (case pixel_indices p (take (img_w img * img_h img) (img_data img)) of
           Inl e \<Rightarrow> Inl e
         | Inr xs \<Rightarrow>
             if can_open then
               Inr \<lparr>hdr_id = ''NIM0'', hdr_width = of_nat (img_w img),
                    hdr_height = of_nat (img_h img), nim_data = emit flag4 0 0 xs\<rparr>
             else Inl OutputWriteFailure))"
proof (cases "(flag4 \<and> numColours p > 16) \<or> (flag4 \<and> img_w img mod 2 = 1)")
  case True
  then show ?thesis by (auto simp: process_image_def)
next
  case False
  then have ev: "flag4 \<longrightarrow> even (img_w img)" by presburger
  have rl: "row_loop p flag4 img 0 0 [] =
           (case pixel_indices p (take (img_w img * img_h img) (img_data img)) of
              Inl e \<Rightarrow> Inl e
            | Inr xs \<Rightarrow> Inr (emit flag4 0 0 xs))"
    using row_loop_char [of 0 img 0 flag4 p "[]"] assms ev
    by (simp add: mult.commute cong: sum.case_cong)
  show ?thesis
  proof (cases "pixel_indices p (take (img_w img * img_h img) (img_data img))")
    case (Inl e)
    then show ?thesis using False rl by (auto simp: process_image_def)
  next
    case (Inr xs)
    have len: "length xs = img_w img * img_h img"
      using pixel_indices_length [OF Inr] assms by simp
    have "length (emit flag4 0 0 xs) = (if flag4 then img_w img * img_h img div 2 else img_w img * img_h img)"
      by (simp add: emit_def length_pack4 len)
    then show ?thesis using False rl Inr by (auto simp: process_image_def)
  qed
qed

lemma process_image_success:
  assumes "img_w img * img_h img \<le> length (img_data img)"
    and "\<forall>k < img_w img * img_h img. \<exists>x. pixel_index p (img_data img ! k) = Inr x"
    and "flag4 \<longrightarrow> numColours p \<le> 16 \<and> even (img_w img)"
  shows "\<exists>xs. length xs = img_w img * img_h img
           \<and> (\<forall>k < img_w img * img_h img. pixel_index p (img_data img ! k) = Inr (xs ! k))
           \<and> process_image p (Some img) flag4 True =
               Inr \<lparr>hdr_id = ''NIM0'', hdr_width = of_nat (img_w img),
                    hdr_height = of_nat (img_h img), nim_data = emit flag4 0 0 xs\<rparr>"
proof -
  define ss where "ss = take (img_w img * img_h img) (img_data img)"
  have len: "length ss = img_w img * img_h img" using assms(1) by (simp add: ss_def)
  have "\<forall>s\<in>set ss. \<exists>x. pixel_index p s = Inr x"
    using assms(2) len by (auto simp: in_set_conv_nth ss_def)
  then obtain xs where xs: "pixel_indices p ss = Inr xs"
    using pixel_indices_total by blast
  have lx: "length xs = img_w img * img_h img"
    using pixel_indices_length [OF xs] len by simp
  have nth: "pixel_index p (img_data img ! k) = Inr (xs ! k)" if "k < img_w img * img_h img" for k
    using pixel_indices_nth [OF xs, of k] that len by (simp add: ss_def)
  have "\<not> (flag4 \<and> img_w img mod 2 = 1)"
    using assms(3) by presburger
  then have "process_image p (Some img) flag4 True =
      Inr \<lparr>hdr_id = ''NIM0'', hdr_width = of_nat (img_w img),
           hdr_height = of_nat (img_h img), nim_data = emit flag4 0 0 xs\<rparr>"
    using assms(1,3) xs by (auto simp: process_image_char ss_def)
  with lx nth show ?thesis by blast
qed

lemma mod_256_shift: "(n * 16) mod 256 = 16 * (n mod 16)" for n :: nat
  using mult_mod_right [of 16 n 16] by (simp add: mult.commute)

lemma unat_shift4: "unat (push_bit 4 x :: u8) = 16 * (unat x mod 16)"
proof -
  have "unat (push_bit 4 x :: u8) = (unat x * 16) mod 256"
    by (simp add: push_bit_eq_mult unat_word_ariths)
  then show ?thesis by (simp only: mod_256_shift)
qed

subsection \<open>Image converter\<close>

lemma pixel_channels:
  "uint (pixel_r s) = uint s mod 256
   \<and> uint (pixel_g s) = uint s div 256 mod 256
   \<and> uint (pixel_b s) = uint s div 65536 mod 256
   \<and> uint (pixel_a s) = uint s div 16777216"
proof -
  have m: "(0xff :: u32) = mask 8" "(0xff00 :: u32) = push_bit 8 (mask 8)"
    "(0xff0000 :: u32) = push_bit 16 (mask 8)" "(0xff000000 :: u32) = push_bit 24 (mask 8)"
    by (simp_all add: mask_eq_exp_minus_1 push_bit_eq_mult)
  have r: "pixel_r s = ucast (take_bit 8 s)"
    unfolding pixel_r_def m by (simp add: take_bit_eq_mask)
  have g: "pixel_g s = ucast (take_bit 8 (drop_bit 8 s))"
    unfolding pixel_g_def m by (rule bit_word_eqI) (auto simp: bit_simps)
  have b: "pixel_b s = ucast (take_bit 8 (drop_bit 16 s))"
    unfolding pixel_b_def m by (rule bit_word_eqI) (auto simp: bit_simps)
  have a: "pixel_a s = ucast (drop_bit 24 s)"
    unfolding pixel_a_def m by (rule bit_word_eqI) (auto simp: bit_simps)
  have u: "uint (ucast (take_bit 8 w :: u32) :: u8) = uint w mod 256" for w :: u32
  proof -
    have "uint (ucast (take_bit 8 w :: u32) :: u8) = take_bit 8 (uint w)"
      by (simp add: unsigned_ucast_eq unsigned_take_bit_eq)
    then show ?thesis by (simp add: take_bit_eq_mod)
  qed
  have d: "uint (drop_bit n s) = uint s div 2 ^ n" for n
  proof -
    have "uint s mod 4294967296 = uint s"
      using uint_lt2p [of s] by simp
    then have "uint (drop_bit n s) = drop_bit n (uint s)"
      by (simp add: unsigned_drop_bit_eq take_bit_eq_mod)
    then show ?thesis by (simp add: drop_bit_eq_div)
  qed
  have "uint (drop_bit 24 s) < 256"
    using uint_lt2p [of s] by (simp add: d)
  moreover have "0 \<le> uint (drop_bit 24 s)"
    by simp
  ultimately have ua: "uint (ucast (drop_bit 24 s) :: u8) = uint s div 16777216"
    by (simp add: unsigned_ucast_eq take_bit_eq_mod d del: uint_ge_0)
  show ?thesis
    using u [of s] u [of "drop_bit 8 s"] u [of "drop_bit 16 s"] ua
    by (simp add: r g b a d)
qed

lemma sq_dist_nonneg: "0 \<le> sq_dist c r g b"
  by (simp add: sq_dist_def)

lemma oversized_nearest: "nearest_entry oversized_palette 255 255 255 256"
proof -
  have c: "m_colours oversized_palette ! 256 = \<lparr>m_red = 7, m_green = 7, m_blue = 7\<rparr>"
    by (simp add: oversized_palette_def nth_append)
  have b: "m_colours oversized_palette ! j = \<lparr>m_red = 0, m_green = 0, m_blue = 0\<rparr>" if "j < 256" for j
    using that by (simp add: oversized_palette_def nth_append)
  have 0: "sq_dist (m_colours oversized_palette ! 256) 255 255 255 = 0"
    by (simp add: c sq_dist_def kColour_3bit_def)
  have 1: "sq_dist (m_colours oversized_palette ! j) 255 255 255 = 195075" if "j < 256" for j
    by (simp add: b [OF that] sq_dist_def kColour_3bit_def)
  have "candidate oversized_palette 256"
    by (simp add: candidate_def oversized_palette_def numColours_def getTransColour_def)
  then show ?thesis
    unfolding nearest_entry_def using 0 1 sq_dist_nonneg by simp
qed

text \<open>
  C1, as the code has it. A pixel is the 32-bit value \<^verbatim>\<open>0xAABBGGRR\<close>: red is its low
  byte, green the next, blue the third, alpha the high byte. For a palette with 3-bit
  channels (every palette the program builds has them, see the last section) that has an
  entry away from the transparent index, the search for an opaque pixel (alpha 255) ends
  on the entry \<open>k\<close> that minimises the squared distance between the entry expanded through
  \<^verbatim>\<open>kColour_3bit\<close> and the raw red, green and blue of the pixel; the entry at the
  transparent index is never chosen, and of entries equally near the lowest index wins.
  The index given to the pixel is \<open>k\<close> narrowed to \<^verbatim>\<open>u8\<close> by \<^verbatim>\<open>x = i\<close> (line 452), that is
  \<open>k mod 256\<close>; it is \<open>k\<close> itself when the palette has at most 256 entries. In 8-bit mode
  the conversion of a whole image succeeds and the byte written for every opaque pixel is
  that narrowed index.
\<close>

theorem opaque_pixel_nearest_entry:
  assumes "\<forall>c\<in>set (m_colours p). valid_colour c" and "\<exists>i. candidate p i"
  shows "uint (pixel_r s) = uint s mod 256
       \<and> uint (pixel_g s) = uint s div 256 mod 256
       \<and> uint (pixel_b s) = uint s div 65536 mod 256
       \<and> uint (pixel_a s) = uint s div 16777216
   \<and> (pixel_a s = 255 \<longrightarrow>
         (\<exists>k. nearest_entry p (uint (pixel_r s)) (uint (pixel_g s)) (uint (pixel_b s)) k
            \<and> pixel_index p s = Inr (of_nat k)
            \<and> unat (of_nat k :: u8) = k mod 256
            \<and> (numColours p \<le> 256 \<longrightarrow> unat (of_nat k :: u8) = k)))
   \<and> (img_w img * img_h img \<le> length (img_data img) \<longrightarrow>
        (\<exists>out. process_image p (Some img) False True = Inr out
           \<and> length (nim_data out) = img_w img * img_h img
           \<and> (\<forall>n < img_w img * img_h img. pixel_a (img_data img ! n) = 255 \<longrightarrow>
                 (\<exists>k. nearest_entry p (uint (pixel_r (img_data img ! n))) (uint (pixel_g (img_data img ! n)))
                         (uint (pixel_b (img_data img ! n))) k
                    \<and> nim_data out ! n = of_nat k
                    \<and> (numColours p \<le> 256 \<longrightarrow> unat (nim_data out ! n) = k)))))"
proof -
  have narrow: "unat (of_nat k :: u8) = k mod 256
                \<and> (numColours p \<le> 256 \<longrightarrow> unat (of_nat k :: u8) = k)"
    if "nearest_entry p r g b k" for r g b k
  proof -
    have "k < numColours p" using that by (simp add: nearest_entry_def candidate_def)
    then show ?thesis by (simp add: unat_of_nat)
  qed
  have one: "\<exists>k. nearest_entry p (uint (pixel_r t)) (uint (pixel_g t)) (uint (pixel_b t)) k
            \<and> pixel_index p t = Inr (of_nat k)
            \<and> unat (of_nat k :: u8) = k mod 256
            \<and> (numColours p \<le> 256 \<longrightarrow> unat (of_nat k :: u8) = k)"
    if "pixel_a t = 255" for t
    using pixel_index_opaque [OF assms that] narrow by blast
  have whole: "\<exists>out. process_image p (Some img) False True = Inr out
           \<and> length (nim_data out) = img_w img * img_h img
           \<and> (\<forall>n < img_w img * img_h img. pixel_a (img_data img ! n) = 255 \<longrightarrow>
                 (\<exists>k. nearest_entry p (uint (pixel_r (img_data img ! n))) (uint (pixel_g (img_data img ! n)))
                         (uint (pixel_b (img_data img ! n))) k
                    \<and> nim_data out ! n = of_nat k
                    \<and> (numColours p \<le> 256 \<longrightarrow> unat (nim_data out ! n) = k)))"
    if room: "img_w img * img_h img \<le> length (img_data img)"
  proof -
    have ok: "\<exists>x. pixel_index p t = Inr x" for t
      using one [of t] pixel_index_transparent [of t p]
      by (cases "pixel_a t = 255") auto
    obtain xs where lx: "length xs = img_w img * img_h img"
      and nth: "\<forall>n < img_w img * img_h img. pixel_index p (img_data img ! n) = Inr (xs ! n)"
      and out: "process_image p (Some img) False True =
               Inr \<lparr>hdr_id = ''NIM0'', hdr_width = of_nat (img_w img),
                    hdr_height = of_nat (img_h img), nim_data = emit False 0 0 xs\<rparr>"
      using process_image_success [of img p False] room ok by auto
    have "\<exists>k. nearest_entry p (uint (pixel_r (img_data img ! n))) (uint (pixel_g (img_data img ! n)))
                         (uint (pixel_b (img_data img ! n))) k
                    \<and> xs ! n = of_nat k
                    \<and> (numColours p \<le> 256 \<longrightarrow> unat (xs ! n) = k)"
      if "n < img_w img * img_h img" "pixel_a (img_data img ! n) = 255" for n
      using one [OF that(2)] nth that(1) by auto
    then show ?thesis
      using out lx by (simp add: emit_def)
  qed
  show ?thesis
    using pixel_channels [of s] one [of s] whole by blast
qed

theorem opaque_pixel_nearest_entry_witness:
  "uint (pixel_r 0xffff0024) = 36 \<and> uint (pixel_g 0xffff0024) = 0 \<and> uint (pixel_b 0xffff0024) = 255
   \<and> pixel_index example_palette 0xffff0024 = Inr 2
   \<and> nearest_entry example_palette 36 0 255 2
   \<and> sq_dist (m_colours example_palette ! 5) 36 0 255 = 0
   \<and> sq_dist (m_colours example_palette ! 2) 36 0 255 = 1296
   \<and> sq_dist (m_colours example_palette ! 3) 36 0 255 = 1296
   \<and> sq_dist (m_colours example_palette ! 1) 36 0 255 = 65025"
proof -
  have h2: "\<forall>c\<in>set (m_colours example_palette). valid_colour c"
    by (simp add: example_palette_def valid_colour_def)
  have "candidate example_palette 0"
    by (simp add: example_palette_def candidate_def numColours_def getTransColour_def)
  then have h3: "\<exists>i. candidate example_palette i" ..
  have a: "pixel_a 0xffff0024 = 255" by (simp add: pixel_a_def)
  note t = opaque_pixel_nearest_entry [OF h2 h3, of "0xffff0024"]
  have rgb: "uint (pixel_r 0xffff0024) = 36" "uint (pixel_g 0xffff0024) = 0" "uint (pixel_b 0xffff0024) = 255"
    using t by simp_all
  have v: "pixel_index example_palette 0xffff0024 = Inr 2"
    by (simp add: pixel_index_def a rgb nearest_loop.simps example_palette_def numColours_def
        getTransColour_def colour_point_def kColour_3bit_at_def kColour_3bit_def)
  obtain k where k: "nearest_entry example_palette 36 0 255 k" and x: "pixel_index example_palette 0xffff0024 = Inr (of_nat k)"
    and u: "numColours example_palette \<le> 256 \<longrightarrow> unat (of_nat k :: u8) = k"
    using t a rgb by auto
  have "numColours example_palette \<le> 256" by (simp add: example_palette_def numColours_def)
  then have "k = 2" using u x v by auto
  then have n: "nearest_entry example_palette 36 0 255 2" using k by simp
  have d: "sq_dist (m_colours example_palette ! 5) 36 0 255 = 0"
    "sq_dist (m_colours example_palette ! 2) 36 0 255 = 1296"
    "sq_dist (m_colours example_palette ! 3) 36 0 255 = 1296"
    "sq_dist (m_colours example_palette ! 1) 36 0 255 = 65025"
    by (simp_all add: example_palette_def sq_dist_def kColour_3bit_def)
  show ?thesis by (intro conjI rgb v n d)
qed

text \<open>
  C1 as stated, for every palette, fails. The palette of 257 entries that the reader
  builds from a JASC-PAL file of 256 black lines and one white line (lemma
  \<open>oversized_palette_from_file\<close>) has white at index 256, away from the transparent index
  \<^verbatim>\<open>0xe3\<close>. An opaque white pixel is at distance 0 from that entry, yet it is given index
  0, a black entry at distance 195075, and the 8-bit conversion of the image made of this
  one pixel writes the byte 0.
\<close>

theorem oversized_palette_counterexample:
  "numColours oversized_palette = 257
   \<and> pixel_a 0xffffffff = 255
   \<and> candidate oversized_palette 256
   \<and> pixel_index oversized_palette 0xffffffff = Inr 0
   \<and> process_image oversized_palette (Some \<lparr>img_w = 1, img_h = 1, img_data = [0xffffffff]\<rparr>) False True
        = Inr \<lparr>hdr_id = ''NIM0'', hdr_width = 1, hdr_height = 1, nim_data = [0]\<rparr>
   \<and> sq_dist (m_colours oversized_palette ! 0) 255 255 255 = 195075
   \<and> sq_dist (m_colours oversized_palette ! 256) 255 255 255 = 0"
proof -
  have n: "numColours oversized_palette = 257"
    by (simp add: oversized_palette_def numColours_def)
  have a: "pixel_a 0xffffffff = 255" by (simp add: pixel_a_def)
  have rgb: "uint (pixel_r 0xffffffff) = 255" "uint (pixel_g 0xffffffff) = 255" "uint (pixel_b 0xffffffff) = 255"
    by (simp_all add: pixel_r_def pixel_g_def pixel_b_def)
  have v: "\<forall>c\<in>set (m_colours oversized_palette). valid_colour c"
    by (auto simp: oversized_palette_def valid_colour_def)
  have "candidate oversized_palette 0"
    by (simp add: candidate_def oversized_palette_def numColours_def getTransColour_def)
  then have c: "\<exists>i. candidate oversized_palette i" ..
  obtain k where k: "nearest_entry oversized_palette 255 255 255 k"
    and x: "pixel_index oversized_palette 0xffffffff = Inr (of_nat k)"
    using pixel_index_opaque [OF v c a] rgb by auto
  have "k = 256" using nearest_entry_unique [OF k oversized_nearest] .
  then have x0: "pixel_index oversized_palette 0xffffffff = Inr 0"
    using x by simp
  have d: "sq_dist (m_colours oversized_palette ! 0) 255 255 255 = 195075"
    "sq_dist (m_colours oversized_palette ! 256) 255 255 255 = 0"
    by (simp_all add: oversized_palette_def nth_append sq_dist_def kColour_3bit_def)
  have c256: "candidate oversized_palette 256"
    by (simp add: candidate_def oversized_palette_def numColours_def getTransColour_def)
  have im: "process_image oversized_palette (Some \<lparr>img_w = 1, img_h = 1, img_data = [0xffffffff]\<rparr>) False True
        = Inr \<lparr>hdr_id = ''NIM0'', hdr_width = 1, hdr_height = 1, nim_data = [0]\<rparr>"
    by (simp add: process_image_char x0 emit_def)
  show ?thesis by (intro conjI n a c256 x0 im d)
qed



text \<open>
  C8. In 4-bit mode a palette of more than 16 entries is refused with
  \<open>PaletteTooLarge\<close>, and an odd width with \<open>OddWidthFor4Bit\<close> (the palette is tested
  first); both hold whatever the pixel buffer contains, and nothing is written.
\<close>

theorem four_bit_preconditions:
  "(numColours p > 16 \<longrightarrow> process_image p (Some img) True can_open = Inl PaletteTooLarge)
   \<and> (numColours p \<le> 16 \<and> img_w img mod 2 = 1 \<longrightarrow>
        process_image p (Some img) True can_open = Inl OddWidthFor4Bit)"
  by (simp add: process_image_def)

theorem four_bit_preconditions_witness:
  "process_image \<lparr>m_colours = replicate 17 \<lparr>m_red = 0, m_green = 0, m_blue = 0\<rparr>, m_transparentColour = 0xe3\<rparr>
      (Some \<lparr>img_w = 2, img_h = 1, img_data = [0xff000000, 0xff000000]\<rparr>) True True = Inl PaletteTooLarge
   \<and> process_image \<lparr>m_colours = replicate 16 \<lparr>m_red = 0, m_green = 0, m_blue = 0\<rparr>, m_transparentColour = 0xe3\<rparr>
      (Some \<lparr>img_w = 5, img_h = 1, img_data = replicate 5 0xff000000\<rparr>) True True = Inl OddWidthFor4Bit"
  using four_bit_preconditions
     [of "\<lparr>m_colours = replicate 17 \<lparr>m_red = 0, m_green = 0, m_blue = 0\<rparr>, m_transparentColour = 0xe3\<rparr>"
         "\<lparr>img_w = 2, img_h = 1, img_data = [0xff000000, 0xff000000]\<rparr>" True]
    four_bit_preconditions
     [of "\<lparr>m_colours = replicate 16 \<lparr>m_red = 0, m_green = 0, m_blue = 0\<rparr>, m_transparentColour = 0xe3\<rparr>"
         "\<lparr>img_w = 5, img_h = 1, img_data = replicate 5 0xff000000\<rparr>" True]
  by (simp add: numColours_def)

text \<open>
  C9, as the code has it. A width or height beyond 65535 is no error: when every pixel
  can be classified and the 4-bit preconditions hold, the conversion succeeds and the
  header holds the width and the height modulo 65536.
\<close>

theorem header_dimensions_narrowed:
  assumes "img_w img * img_h img \<le> length (img_data img)"
    and "\<forall>k < img_w img * img_h img. \<exists>x. pixel_index p (img_data img ! k) = Inr x"
    and "flag4 \<longrightarrow> numColours p \<le> 16 \<and> even (img_w img)"
  shows "\<exists>out. process_image p (Some img) flag4 True = Inr out
           \<and> unat (hdr_width out) = img_w img mod 65536
           \<and> unat (hdr_height out) = img_h img mod 65536"
  using process_image_success [OF assms] by (auto simp: unat_of_nat)

theorem header_dimensions_narrowed_witness:
  "\<exists>out. process_image Palette_default
        (Some \<lparr>img_w = 65537, img_h = 1, img_data = replicate 65537 0\<rparr>) False True = Inr out
      \<and> unat (hdr_width out) = 1 \<and> unat (hdr_height out) = 1"
proof -
  have "pixel_a 0 \<noteq> 255" by (simp add: pixel_a_def)
  then have "\<forall>k < 65537. \<exists>x. pixel_index Palette_default (replicate 65537 0 ! k) = Inr x"
    by (simp add: pixel_index_def)
  then show ?thesis
    using header_dimensions_narrowed
      [of "\<lparr>img_w = 65537, img_h = 1, img_data = replicate 65537 0\<rparr>" Palette_default False]
    by simp
qed

text \<open>
  C9 as stated fails: an image 65536 pixels wide and 1 high, all pixels transparent, is
  converted without error and the width written is 0.
\<close>

theorem oversized_width_counterexample:
  "process_image Palette_default
     (Some \<lparr>img_w = 65536, img_h = 1, img_data = replicate 65536 0\<rparr>) False True
   = Inr \<lparr>hdr_id = ''NIM0'', hdr_width = 0, hdr_height = 1, nim_data = replicate 65536 0xe3\<rparr>"
proof -
  have "pixel_index Palette_default 0 = Inr 0xe3"
    by (simp add: pixel_index_def pixel_a_def getTransColour_def Palette_default_def)
  then have "pixel_indices Palette_default (replicate 65536 0) = Inr (replicate 65536 0xe3)"
    by (rule pixel_indices_replicate)
  then show ?thesis
    by (simp add: process_image_char emit_def)
qed

text \<open>
  C10. In 4-bit mode (palette of at most 16 entries, even width) the conversion succeeds
  whatever the indices are, and the byte of the columns \<open>2c\<close> and \<open>2c + 1\<close> of a row is
  \<open>(xe << 4) + xo\<close> in 8-bit arithmetic, \<open>xe\<close> and \<open>xo\<close> being the indices of the two
  pixels: the shift keeps \<open>xe\<close> modulo 16 in the high nibble, and the sum wraps modulo
  256. An index of 16 or more, such as the default transparent index \<open>0xE3\<close>, is thus
  reduced in the output and not refused.
\<close>

theorem four_bit_packing_wraps:
  assumes "numColours p \<le> 16" and "even (img_w img)"
    and "img_w img * img_h img \<le> length (img_data img)"
    and "\<forall>k < img_w img * img_h img. \<exists>x. pixel_index p (img_data img ! k) = Inr x"
  shows "\<exists>out. process_image p (Some img) True True = Inr out
           \<and> length (nim_data out) = img_w img * img_h img div 2
           \<and> (\<forall>row < img_h img. \<forall>c. 2 * c + 1 < img_w img \<longrightarrow>
                (\<exists>xe xo. pixel_index p (img_data img ! (row * img_w img + 2 * c)) = Inr xe
                   \<and> pixel_index p (img_data img ! (row * img_w img + 2 * c + 1)) = Inr xo
                   \<and> nim_data out ! ((row * img_w img + 2 * c) div 2) = push_bit 4 xe + xo
                   \<and> unat (push_bit 4 xe :: u8) = 16 * (unat xe mod 16)
                   \<and> unat (nim_data out ! ((row * img_w img + 2 * c) div 2))
                       = (16 * (unat xe mod 16) + unat xo) mod 256))"
proof -
  obtain xs where lx: "length xs = img_w img * img_h img"
    and nth: "\<forall>k < img_w img * img_h img. pixel_index p (img_data img ! k) = Inr (xs ! k)"
    and out: "process_image p (Some img) True True =
               Inr \<lparr>hdr_id = ''NIM0'', hdr_width = of_nat (img_w img),
                    hdr_height = of_nat (img_h img), nim_data = emit True 0 0 xs\<rparr>"
    using process_image_success [of img p True] assms by auto
  have data: "emit True 0 0 xs = pack4 xs" by (simp add: emit_def)
  have cell: "\<exists>xe xo. pixel_index p (img_data img ! (row * img_w img + 2 * c)) = Inr xe
                   \<and> pixel_index p (img_data img ! (row * img_w img + 2 * c + 1)) = Inr xo
                   \<and> pack4 xs ! ((row * img_w img + 2 * c) div 2) = push_bit 4 xe + xo
                   \<and> unat (push_bit 4 xe :: u8) = 16 * (unat xe mod 16)
                   \<and> unat (pack4 xs ! ((row * img_w img + 2 * c) div 2))
                       = (16 * (unat xe mod 16) + unat xo) mod 256"
    if row: "row < img_h img" and c: "2 * c + 1 < img_w img" for row c
  proof -
    define k where "k = row * img_w img + 2 * c"
    have "Suc row * img_w img \<le> img_h img * img_w img"
      using row by (intro mult_le_mono1) simp
    then have k1: "k + 1 < img_w img * img_h img"
      using c by (simp add: k_def mult.commute)
    have "even k" using assms(2) by (simp add: k_def)
    then have k2: "2 * (k div 2) = k" by simp
    have p: "pack4 xs ! (k div 2) = push_bit 4 (xs ! k) + xs ! (k + 1)"
      using pack4_nth [of "k div 2" xs] k1 lx by (simp add: k2)
    have "unat (push_bit 4 (xs ! k) + xs ! (k + 1))
            = (unat (push_bit 4 (xs ! k) :: u8) + unat (xs ! (k + 1))) mod 256"
      by (simp add: unat_word_ariths)
    then have u: "unat (pack4 xs ! (k div 2)) = (16 * (unat (xs ! k) mod 16) + unat (xs ! (k + 1))) mod 256"
      by (simp add: p unat_shift4)
    have "pixel_index p (img_data img ! k) = Inr (xs ! k)"
      and "pixel_index p (img_data img ! (k + 1)) = Inr (xs ! (k + 1))"
      using nth k1 by simp_all
    with p u unat_shift4 [of "xs ! k"] show ?thesis
      unfolding k_def by blast
  qed
  have "length (pack4 xs) = img_w img * img_h img div 2"
    by (simp add: length_pack4 lx)
  with out cell show ?thesis
    unfolding data by (intro exI [of _ "\<lparr>hdr_id = ''NIM0'', hdr_width = of_nat (img_w img),
                    hdr_height = of_nat (img_h img), nim_data = pack4 xs\<rparr>"]) simp
qed

theorem four_bit_packing_wraps_witness:
  "process_image \<lparr>m_colours = [\<lparr>m_red = 0, m_green = 0, m_blue = 0\<rparr>], m_transparentColour = 0xe3\<rparr>
      (Some \<lparr>img_w = 2, img_h = 1, img_data = [0, 0]\<rparr>) True True
    = Inr \<lparr>hdr_id = ''NIM0'', hdr_width = 2, hdr_height = 1, nim_data = [0x13]\<rparr>
   \<and> (\<exists>out. process_image \<lparr>m_colours = [\<lparr>m_red = 0, m_green = 0, m_blue = 0\<rparr>], m_transparentColour = 0xe3\<rparr>
      (Some \<lparr>img_w = 2, img_h = 1, img_data = [0, 0]\<rparr>) True True = Inr out \<and> length (nim_data out) = 1)"
proof -
  let ?p = "\<lparr>m_colours = [\<lparr>m_red = 0, m_green = 0, m_blue = 0\<rparr>], m_transparentColour = 0xe3\<rparr>"
  let ?img = "\<lparr>img_w = 2, img_h = 1, img_data = [0, 0]\<rparr>"
  have t: "pixel_index ?p 0 = Inr 0xe3"
    by (simp add: pixel_index_def pixel_a_def getTransColour_def)
  have h: "\<forall>k < img_w ?img * img_h ?img. \<exists>x. pixel_index ?p (img_data ?img ! k) = Inr x"
    using t by (simp add: numeral_2_eq_2 less_Suc_eq)
  have v: "process_image ?p (Some ?img) True True
    = Inr \<lparr>hdr_id = ''NIM0'', hdr_width = 2, hdr_height = 1, nim_data = [0x13]\<rparr>"
    using t by (simp add: process_image_def numColours_def row_loop.simps col_loop.simps)
  show ?thesis
    using four_bit_packing_wraps [of ?p ?img] h v by (simp add: numColours_def)
qed

subsection \<open>Palette codec: the binary format\<close>


lemma u8_lt8_cases:
  assumes "unat (x :: u8) < 8"
  shows "x = 0 \<or> x = 1 \<or> x = 2 \<or> x = 3 \<or> x = 4 \<or> x = 5 \<or> x = 6 \<or> x = 7"
proof -
  have "unat x = 0 \<or> unat x = 1 \<or> unat x = 2 \<or> unat x = 3 \<or> unat x = 4 \<or> unat x = 5
        \<or> unat x = 6 \<or> unat x = 7"
    using assms by linarith
  then have "unat x = unat (0 :: u8) \<or> unat x = unat (1 :: u8) \<or> unat x = unat (2 :: u8)
      \<or> unat x = unat (3 :: u8) \<or> unat x = unat (4 :: u8) \<or> unat x = unat (5 :: u8)
      \<or> unat x = unat (6 :: u8) \<or> unat x = unat (7 :: u8)"
    by simp
  then show ?thesis
    by (simp only: word_unat_eq_iff [symmetric])
qed






lemma of_char_byte_of: "of_char (byte_of w) = w"
proof -
  have "(of_char (byte_of w) :: u8) = of_nat (of_char (char_of (unat w)))"
    by (simp only: byte_of_def of_nat_of_char)
  also have "\<dots> = of_nat (unat w mod 256)"
    by simp
  also have "\<dots> = w"
    using unsigned_less [of w, where ?'a = nat] by simp
  finally show ?thesis .
qed

lemma read_u8_Cons:
  "read_u8 \<lparr>content = c, rest = x # r, eofbit = False, failbit = False\<rparr>
     = (Some (of_char x), \<lparr>content = c, rest = r, eofbit = False, failbit = False\<rparr>)"
  by (simp add: read_u8_def istream_read_def good_def)

lemma read_u8_Nil:
  "read_u8 \<lparr>content = c, rest = [], eofbit = False, failbit = False\<rparr>
     = (None, \<lparr>content = c, rest = [], eofbit = True, failbit = True\<rparr>)"
  by (simp add: read_u8_def istream_read_def good_def)

lemma read_nip_entries_written:
  assumes "(flags AND 1 \<noteq> 0) = extended"
  shows "read_nip_entries (length cs) flags
           \<lparr>content = c, rest = concat (map (write_colour extended) cs) @ tail,
            eofbit = False, failbit = False\<rparr> acc
         = Inr (acc @ map (reread_colour extended) cs,
                \<lparr>content = c, rest = tail, eofbit = False, failbit = False\<rparr>)"
proof (induction cs arbitrary: acc)
  case Nil
  then show ?case by simp
next
  case (Cons a cs)
  show ?case
  proof (cases extended)
    case True
    then have "flags AND 1 \<noteq> 0" using assms by simp
    then show ?thesis
      using True Cons.IH [of "acc @ [reread_colour extended a]"]
      by (simp add: write_colour_def read_u8_Cons of_char_byte_of reread_colour_def)
  next
    case False
    then have "flags AND 1 = 0" using assms by simp
    then show ?thesis
      using False Cons.IH [of "acc @ [reread_colour extended a]"]
      by (simp add: write_colour_def read_u8_Cons of_char_byte_of reread_colour_def)
  qed
qed

lemma read_nip_entries_truncated:
  assumes "(flags AND 1 \<noteq> 0) = extended"
    and "j < length (concat (map (write_colour extended) cs))"
  shows "read_nip_entries (length cs) flags
           \<lparr>content = c, rest = take j (concat (map (write_colour extended) cs)),
            eofbit = False, failbit = False\<rparr> acc
         = Inl IndeterminateRead"
  using assms(2)
proof (induction cs arbitrary: j acc)
  case Nil
  then show ?case by simp
next
  case (Cons a cs)
  show ?case
  proof (cases extended)
    case False
    then have fl: "flags AND 1 = 0" using assms(1) by simp
    show ?thesis
    proof (cases j)
      case 0
      then show ?thesis by (simp add: read_u8_Nil)
    next
      case (Suc k)
      have w: "write_colour extended a = [byte_of (pack_p1 a)]"
        using False by (simp add: write_colour_def)
      have "k < length (concat (map (write_colour extended) cs))"
        using Cons.prems Suc by (simp add: w)
      then show ?thesis
        using Cons.IH [of k] fl Suc by (simp add: w read_u8_Cons)
    qed
  next
    case True
    then have fl: "flags AND 1 \<noteq> 0" using assms(1) by simp
    have w: "write_colour extended a = [byte_of (pack_p1 a), byte_of (pack_p2 a)]"
      using True by (simp add: write_colour_def)
    show ?thesis
    proof (cases j)
      case 0
      then show ?thesis by (simp add: read_u8_Nil)
    next
      case (Suc k)
      show ?thesis
      proof (cases k)
        case 0
        then show ?thesis
          using fl Suc by (simp add: w read_u8_Cons read_u8_Nil)
      next
        case (Suc l)
        then have "l < length (concat (map (write_colour extended) cs))"
          using Cons.prems \<open>j = Suc k\<close> by (simp add: w)
        then show ?thesis
          using Cons.IH [of l] fl Suc \<open>j = Suc k\<close>
          by (simp add: w read_u8_Cons)
      qed
    qed
  qed
qed

lemma and_255: "n AND 255 = n mod 256" for n :: nat
proof -
  have "n AND mask 8 = n mod 2 ^ 8"
    by (simp only: take_bit_eq_mask [symmetric] take_bit_eq_mod)
  then show ?thesis by (simp add: mask_eq_exp_minus_1)
qed

lemma header_count:
  assumes "1 \<le> length cs" "length cs \<le> 256"
  shows "(if header_numColours \<lparr>m_colours = cs, m_transparentColour = t\<rparr> \<noteq> 0
          then unat (header_numColours \<lparr>m_colours = cs, m_transparentColour = t\<rparr>) else 256)
         = length cs"
proof (cases "length cs = 256")
  case True
  then show ?thesis by (simp add: header_numColours_def and_255)
next
  case False
  then have lt: "length cs < 256" using assms by simp
  then have u: "unat (of_nat (length cs) :: u8) = length cs"
    by (simp add: unat_of_nat)
  then have "(of_nat (length cs) :: u8) \<noteq> 0"
    using assms(1) by (metis One_nat_def not_one_le_zero unat_0)
  then show ?thesis using lt u by (simp add: header_numColours_def and_255)
qed

lemma nip_roundtrip:
  assumes "1 \<le> length cs" "length cs \<le> 256"
  shows "Palette_ifstream (open_file (Palette_write \<lparr>m_colours = cs, m_transparentColour = t\<rparr> extended))
         = Inr \<lparr>m_colours = map (reread_colour extended) cs, m_transparentColour = t\<rparr>"
proof -
  let ?p = "\<lparr>m_colours = cs, m_transparentColour = t\<rparr>"
  let ?body = "concat (map (write_colour extended) cs) @ [byte_of t]"
  let ?file = "Palette_write ?p extended"
  have wr: "?file = ''NIP0'' @ byte_of (header_numColours ?p) # byte_of (if extended then 1 else 0) # ?body"
    by (simp add: Palette_write_def)
  have tag: "istream_read (open_file ?file) 4
      = (''NIP0'', \<lparr>content = ?file,
           rest = byte_of (header_numColours ?p) # byte_of (if extended then 1 else 0) # ?body,
           eofbit = False, failbit = False\<rparr>)"
    by (simp add: istream_read_def open_file_def good_def Palette_write_def)
  have fl: "((if extended then 1 else 0 :: u8) AND 1 \<noteq> 0) = extended"
    by simp
  have "read_nip \<lparr>content = ?file,
           rest = byte_of (header_numColours ?p) # byte_of (if extended then 1 else 0) # ?body,
           eofbit = False, failbit = False\<rparr>
        = Inr \<lparr>m_colours = map (reread_colour extended) cs, m_transparentColour = t\<rparr>"
    unfolding read_nip_def
    by (simp add: read_u8_Cons of_char_byte_of Let_def header_count [OF assms]
        read_nip_entries_written [OF fl, of cs _ "[byte_of t]" "[]", simplified])
  then show ?thesis
    unfolding Palette_ifstream_def tag by simp
qed

lemma take_past_tag:
  "length xs = 4 \<Longrightarrow> k \<le> length ys \<Longrightarrow> take (4 + k) (xs @ ys @ zs) = xs @ take k ys"
  by simp




text \<open>
  C5. A palette of 256 entries is written with the count byte 0, and reading the file
  back gives a palette of 256 entries, in either mode.
\<close>

theorem count_sentinel_round_trip:
  assumes "numColours p = 256"
  shows "header_numColours p = 0
       \<and> Palette_write p extended ! 4 = byte_of 0
       \<and> (\<exists>q. Palette_ifstream (open_file (Palette_write p extended)) = Inr q \<and> numColours q = 256)"
proof -
  obtain cs t where p: "p = \<lparr>m_colours = cs, m_transparentColour = t\<rparr>"
    by (cases p) simp
  have len: "length cs = 256" using assms by (simp add: p numColours_def)
  have h: "header_numColours p = 0"
    by (simp add: header_numColours_def p len and_255)
  have "Palette_write p extended ! 4 = byte_of 0"
    by (simp add: Palette_write_def h nth_append)
  moreover have "Palette_ifstream (open_file (Palette_write p extended))
      = Inr \<lparr>m_colours = map (reread_colour extended) cs, m_transparentColour = t\<rparr>"
    using nip_roundtrip [of cs t extended] len by (simp add: p)
  ultimately show ?thesis using h len by (simp add: numColours_def)
qed

theorem count_sentinel_round_trip_witness:
  "header_numColours Palette_default = 0
   \<and> (\<exists>q. Palette_ifstream (open_file (Palette_write Palette_default False)) = Inr q \<and> numColours q = 256)"
proof -
  have "numColours Palette_default = 256"
    by (simp add: Palette_default_def numColours_def)
  then show ?thesis
    using count_sentinel_round_trip [of Palette_default False] by simp
qed

text \<open>
  C7, as the code has it. The reader checks no read, so a truncated \<^verbatim>\<open>NIP0\<close> stream is
  never reported as such. A written palette file cut before its last byte, the
  transparent index, reads as the palette of the declared entries with the transparent
  index left at \<^verbatim>\<open>0xe3\<close>; cut anywhere earlier (after the tag), the reader goes on with
  variables that no read has written.
\<close>

theorem truncated_nip_stream:
  assumes "1 \<le> numColours p" and "numColours p \<le> 256"
  shows "Palette_ifstream (open_file (butlast (Palette_write p extended)))
           = Inr \<lparr>m_colours = map (reread_colour extended) (m_colours p), m_transparentColour = 0xe3\<rparr>
       \<and> (\<forall>m. 4 \<le> m \<and> m < length (Palette_write p extended) - 1 \<longrightarrow>
             Palette_ifstream (open_file (take m (Palette_write p extended))) = Inl IndeterminateRead)"
proof (intro conjI allI impI)
  obtain cs t where p: "p = \<lparr>m_colours = cs, m_transparentColour = t\<rparr>"
    by (cases p) simp
  have len: "1 \<le> length cs" "length cs \<le> 256"
    using assms by (simp_all add: p numColours_def)
  let ?n = "byte_of (header_numColours p)"
  let ?fl = "byte_of (if extended then 1 else 0)"
  let ?body = "concat (map (write_colour extended) cs)"
  have wr: "Palette_write p extended = ''NIP0'' @ ?n # ?fl # ?body @ [byte_of t]"
    by (simp add: Palette_write_def p)
  have fl: "((if extended then 1 else 0 :: u8) AND 1 \<noteq> 0) = extended"
    by simp
  have cnt: "(if header_numColours p \<noteq> 0 then unat (header_numColours p) else 256) = length cs"
    unfolding p by (rule header_count [OF len])
  have tag: "istream_read (open_file (''NIP0'' @ r)) 4
      = (''NIP0'', \<lparr>content = ''NIP0'' @ r, rest = r, eofbit = False, failbit = False\<rparr>)" for r
    by (simp add: istream_read_def open_file_def good_def)
  have bl: "butlast (Palette_write p extended) = ''NIP0'' @ ?n # ?fl # ?body"
    by (simp add: wr butlast_append)
  have "read_nip \<lparr>content = ''NIP0'' @ ?n # ?fl # ?body, rest = ?n # ?fl # ?body,
                  eofbit = False, failbit = False\<rparr>
        = Inr \<lparr>m_colours = map (reread_colour extended) cs, m_transparentColour = 0xe3\<rparr>"
    unfolding read_nip_def
    by (simp add: read_u8_Cons read_u8_Nil of_char_byte_of Let_def cnt
        read_nip_entries_written [OF fl, of cs _ "[]" "[]", simplified])
  then show "Palette_ifstream (open_file (butlast (Palette_write p extended)))
           = Inr \<lparr>m_colours = map (reread_colour extended) (m_colours p), m_transparentColour = 0xe3\<rparr>"
    unfolding Palette_ifstream_def bl tag by (simp add: p)
  fix m
  assume m: "4 \<le> m \<and> m < length (Palette_write p extended) - 1"
  then obtain k where k: "m = 4 + k" and kb: "k < 2 + length ?body"
    using wr by (auto simp: le_iff_add)
  have "take (4 + k) (''NIP0'' @ (?n # ?fl # ?body) @ [byte_of t]) = ''NIP0'' @ take k (?n # ?fl # ?body)"
    using kb by (intro take_past_tag) simp_all
  then have tk: "take m (Palette_write p extended) = ''NIP0'' @ take k (?n # ?fl # ?body)"
    by (simp only: wr k append_Cons)
  have "read_nip \<lparr>content = ''NIP0'' @ take k (?n # ?fl # ?body), rest = take k (?n # ?fl # ?body),
                  eofbit = False, failbit = False\<rparr> = Inl IndeterminateRead"
  proof (cases k)
    case 0
    then show ?thesis
      by (simp add: read_nip_def read_u8_Nil read_u8_def istream_read_def good_def)
  next
    case (Suc k1)
    show ?thesis
    proof (cases k1)
      case 0
      then show ?thesis
        using Suc by (simp add: read_nip_def read_u8_Cons read_u8_Nil)
    next
      case (Suc j)
      then have j: "j < length ?body" using kb \<open>k = Suc k1\<close> by simp
      show ?thesis
        using Suc \<open>k = Suc k1\<close>
        by (simp add: read_nip_def read_u8_Cons of_char_byte_of Let_def cnt
            read_nip_entries_truncated [OF fl j])
    qed
  qed
  then show "Palette_ifstream (open_file (take m (Palette_write p extended))) = Inl IndeterminateRead"
    unfolding Palette_ifstream_def tk tag by simp
qed

theorem truncated_nip_stream_witness:
  "Palette_ifstream (open_file (butlast (Palette_write two_colours False)))
     = Inr \<lparr>m_colours = map (reread_colour False) (m_colours two_colours), m_transparentColour = 0xe3\<rparr>
   \<and> length (Palette_write two_colours False) = 9
   \<and> Palette_ifstream (open_file (take 7 (Palette_write two_colours False))) = Inl IndeterminateRead"
proof -
  have h: "1 \<le> numColours two_colours" "numColours two_colours \<le> 256"
    by (simp_all add: two_colours_def numColours_def)
  have l: "length (Palette_write two_colours False) = 9"
    by (simp add: Palette_write_def two_colours_def write_colour_def)
  have "4 \<le> (7::nat) \<and> 7 < length (Palette_write two_colours False) - 1"
    by (simp add: l)
  then show ?thesis
    using truncated_nip_stream [OF h, of False] l by blast
qed

text \<open>
  C7 as stated fails: the stream \<^verbatim>\<open>NIP0\<close>, count 1, flags 0, one entry byte \<^verbatim>\<open>0xE0\<close> ends
  before the transparent index, and a palette is produced.
\<close>

theorem missing_transparent_byte_counterexample:
  "Palette_ifstream (open_file (''NIP0'' @ [CHR 0x01, CHR 0x00, CHR 0xE0]))
     = Inr \<lparr>m_colours = [\<lparr>m_red = 7, m_green = 0, m_blue = 0\<rparr>], m_transparentColour = 0xe3\<rparr>"
  by (simp add: Palette_ifstream_def open_file_def istream_read_def good_def read_nip_def
      read_u8_def unpack_colour_def Let_def)

subsection \<open>Palette codec: the text format\<close>

lemma digit_char: "d < 10 \<Longrightarrow> isdigit (char_of (48 + d)) \<and> int (of_char (char_of (48 + d))) - 48 = int d"
  by (simp add: isdigit_def)

lemma dec_digits: "c \<in> set (dec n) \<Longrightarrow> isdigit c"
proof (induction n arbitrary: c rule: dec.induct)
  case (1 n)
  show ?case
  proof (cases "n < 10")
    case True
    then show ?thesis using "1.prems" digit_char [of n] by (subst (asm) dec.simps) simp
  next
    case False
    have "n mod 10 < 10" by simp
    then show ?thesis
      using "1.prems" False "1.IH" digit_char [of "n mod 10"]
      by (subst (asm) dec.simps) auto
  qed
qed

lemma dec_nonempty: "dec n \<noteq> []"
  by (subst dec.simps) simp

lemma digits_value_snoc:
  "digits_value (ds @ [c]) = 10 * digits_value ds + (int (of_char c) - 48)"
  by (simp add: digits_value_def)

lemma digits_value_dec: "digits_value (dec n) = int n"
proof (induction n rule: dec.induct)
  case (1 n)
  show ?case
  proof (cases "n < 10")
    case True
    then show ?thesis
      using digit_char [of n] by (subst dec.simps) (simp add: digits_value_def)
  next
    case False
    have "n mod 10 < 10" by simp
    then have "int (of_char (char_of (48 + n mod 10))) - 48 = int (n mod 10)"
      using digit_char by blast
    moreover have "10 * int (n div 10) + int (n mod 10) = int n"
      by presburger
    ultimately show ?thesis
      using False "1.IH" by (subst dec.simps) (simp add: digits_value_snoc)
  qed
qed

lemma isdigit_not_space: "isdigit c \<Longrightarrow> \<not> isspace c \<and> c \<noteq> CHR ''-'' \<and> c \<noteq> CHR ''+''"
  by (auto simp: isdigit_def isspace_def)

lemma isspace_not_digit: "isspace c \<Longrightarrow> \<not> isdigit c"
  using isdigit_not_space by blast

lemma take_drop_dec:
  assumes "delimited r"
  shows "takeWhile isdigit (dec n @ r) = dec n" and "dropWhile isdigit (dec n @ r) = r"
proof -
  have a: "\<forall>c\<in>set (dec n). isdigit c" using dec_digits by blast
  have b: "takeWhile isdigit r = []" "dropWhile isdigit r = r"
    using assms by (cases r; simp add: delimited_def isspace_not_digit)+
  show "takeWhile isdigit (dec n @ r) = dec n"
    using a b by (simp add: takeWhile_append2)
  show "dropWhile isdigit (dec n @ r) = r"
    using a b by (simp add: dropWhile_append2)
qed

lemma scan_int_dec:
  assumes "delimited r"
  shows "scan_int (dec n @ r) = (Some (int n), r)"
proof -
  obtain c t where ct: "dec n = c # t" using dec_nonempty [of n] by (cases "dec n") auto
  then have "isdigit c" using dec_digits [of c n] by simp
  then have s: "c \<noteq> CHR ''-''" "c \<noteq> CHR ''+''" using isdigit_not_space by blast+
  have "scan_int (dec n @ r) =
      (if takeWhile isdigit (dec n @ r) = [] then None else Some (digits_value (takeWhile isdigit (dec n @ r))),
       dropWhile isdigit (dec n @ r))"
    using s by (simp add: scan_int_def ct)
  then show ?thesis
    by (simp add: take_drop_dec [OF assms] dec_nonempty digits_value_dec)
qed

lemma skip_to_dec:
  assumes "\<forall>c\<in>set ws. isspace c"
  shows "dropWhile isspace (ws @ dec n @ r) = dec n @ r"
proof -
  obtain c t where ct: "dec n = c # t" using dec_nonempty [of n] by (cases "dec n") auto
  then have "isdigit c" using dec_digits [of c n] by simp
  then have "\<not> isspace c" using isdigit_not_space by blast
  then show ?thesis using assms by (simp add: ct dropWhile_append2)
qed

lemma get_int_dec:
  assumes "\<forall>c\<in>set ws. isspace c" "delimited r" "n \<le> 255"
  shows "get_int \<lparr>content = f, rest = ws @ dec n @ r, eofbit = False, failbit = False\<rparr>
         = (Some (int n), \<lparr>content = f, rest = r, eofbit = (r = []), failbit = False\<rparr>)"
proof -
  have "sentry \<lparr>content = f, rest = ws @ dec n @ r, eofbit = False, failbit = False\<rparr>
        = (True, \<lparr>content = f, rest = dec n @ r, eofbit = False, failbit = False\<rparr>)"
    by (simp add: sentry_def good_def skip_to_dec [OF assms(1)] dec_nonempty)
  then show ?thesis
    using assms(3) by (simp add: get_int_def scan_int_dec [OF assms(2)] INT_MAX_def INT_MIN_def)
qed

lemma pal_line_nonempty: "pal_line t \<noteq> []"
  by (cases t) (simp add: pal_line_def)

lemma delimited_lines: "delimited (concat (map pal_line ts))"
proof (cases ts)
  case Nil
  then show ?thesis by (simp add: delimited_def)
next
  case (Cons t ts')
  then show ?thesis by (cases t) (simp add: delimited_def pal_line_def isspace_def)
qed

lemma lines_empty: "(concat (map pal_line ts) = []) = (ts = [])"
  using pal_line_nonempty by (cases ts) auto

lemma read_triple_line:
  assumes "valid_triple (r, g, b)" "delimited rest'"
  shows "read_triple \<lparr>content = f, rest = pal_line (r, g, b) @ rest', eofbit = False, failbit = False\<rparr>
         = (Inr (int r, int g, int b),
            \<lparr>content = f, rest = rest', eofbit = (rest' = []), failbit = False\<rparr>)"
proof -
  have v: "r \<le> 255" "g \<le> 255" "b \<le> 255"
    using assms(1) by (simp_all add: valid_triple_def)
  have sp: "delimited (CHR '' '' # xs)" for xs
    by (simp add: delimited_def isspace_def)
  have 1: "get_int \<lparr>content = f, rest = [CHR 0x0A] @ dec r @ (CHR '' '' # dec g @ CHR '' '' # dec b @ rest'),
                     eofbit = False, failbit = False\<rparr>
         = (Some (int r), \<lparr>content = f, rest = CHR '' '' # dec g @ CHR '' '' # dec b @ rest',
                            eofbit = False, failbit = False\<rparr>)"
    using get_int_dec [of "[CHR 0x0A]" "CHR '' '' # dec g @ CHR '' '' # dec b @ rest'" r f] v sp
    by (simp add: isspace_def)
  have 2: "get_int \<lparr>content = f, rest = [CHR '' ''] @ dec g @ (CHR '' '' # dec b @ rest'),
                     eofbit = False, failbit = False\<rparr>
         = (Some (int g), \<lparr>content = f, rest = CHR '' '' # dec b @ rest',
                            eofbit = False, failbit = False\<rparr>)"
    using get_int_dec [of "[CHR '' '']" "CHR '' '' # dec b @ rest'" g f] v sp
    by (simp add: isspace_def)
  have 3: "get_int \<lparr>content = f, rest = [CHR '' ''] @ dec b @ rest', eofbit = False, failbit = False\<rparr>
         = (Some (int b), \<lparr>content = f, rest = rest', eofbit = (rest' = []), failbit = False\<rparr>)"
    using get_int_dec [of "[CHR '' '']" rest' b f] v assms(2)
    by (simp add: isspace_def)
  show ?thesis
    using 1 2 3 v by (simp add: read_triple_def pal_line_def check_triple_def)
qed

lemma read_pal_loop_lines:
  assumes "\<forall>t\<in>set ts. valid_triple t"
  shows "read_pal_loop num
           \<lparr>content = f, rest = concat (map pal_line ts), eofbit = (ts = []), failbit = False\<rparr> i acc
         = Inr (acc @ map quantize (if i < num then take (num - i) ts else ts))"
  using assms
proof (induction ts arbitrary: i acc)
  case Nil
  then show ?case by (subst read_pal_loop.simps) simp
next
  case (Cons t ts)
  obtain r g b where t: "t = (r, g, b)" by (cases t)
  have v: "valid_triple (r, g, b)" using Cons.prems t by simp
  have rt: "read_triple \<lparr>content = f, rest = concat (map pal_line (t # ts)), eofbit = False, failbit = False\<rparr>
         = (Inr (int r, int g, int b),
            \<lparr>content = f, rest = concat (map pal_line ts), eofbit = (ts = []), failbit = False\<rparr>)"
    using read_triple_line [OF v delimited_lines, of f ts] lines_empty [of ts]
    by (simp add: t del: concat_eq_Nil_conv)
  have q: "\<lparr>m_red = gfxReduce3 (word_of_int (int r)), m_green = gfxReduce3 (word_of_int (int g)),
            m_blue = gfxReduce3 (word_of_int (int b))\<rparr> = quantize t"
    by (simp add: quantize_def t)
  show ?case
  proof (cases "Suc i = num")
    case True
    then show ?thesis
      using rt q by (subst read_pal_loop.simps) auto
  next
    case False
    have ih: "read_pal_loop num
           \<lparr>content = f, rest = concat (map pal_line ts), eofbit = (ts = []), failbit = False\<rparr> (Suc i)
           (acc @ [quantize t])
         = Inr ((acc @ [quantize t]) @ map quantize (if Suc i < num then take (num - Suc i) ts else ts))"
      using Cons.IH [of "Suc i" "acc @ [quantize t]"] Cons.prems by simp
    have "(if i < num then take (num - i) (t # ts) else t # ts)
            = t # (if Suc i < num then take (num - Suc i) ts else ts)"
      using False by (cases "i < num") (auto simp: take_Cons')
    then show ?thesis
      using rt q False ih by (subst read_pal_loop.simps) (simp del: take_Cons_numeral)
  qed
qed

lemma get_string_token:
  assumes "\<forall>c\<in>set ws. isspace c" "tok \<noteq> []" "\<forall>c\<in>set tok. \<not> isspace c" "delimited r"
  shows "get_string \<lparr>content = f, rest = ws @ tok @ r, eofbit = False, failbit = False\<rparr> old
         = (tok, \<lparr>content = f, rest = r, eofbit = (r = []), failbit = False\<rparr>)"
proof -
  obtain c t where ct: "tok = c # t" using assms(2) by (cases tok) auto
  then have nc: "\<not> isspace c" using assms(3) by simp
  have skip: "dropWhile isspace (ws @ tok @ r) = tok @ r"
    using assms(1) nc by (simp add: ct dropWhile_append2)
  have r: "takeWhile (\<lambda>c. \<not> isspace c) r = []" "dropWhile (\<lambda>c. \<not> isspace c) r = r"
    using assms(4) by (cases r; simp add: delimited_def)+
  have "takeWhile (\<lambda>c. \<not> isspace c) (tok @ r) = tok" "dropWhile (\<lambda>c. \<not> isspace c) (tok @ r) = r"
    using assms(3) r by (simp_all add: takeWhile_append2 dropWhile_append2)
  then show ?thesis
    using assms(2) by (simp add: get_string_def sentry_def good_def skip del: dropWhile_eq_Nil_conv)
qed

lemma stoi_dec:
  assumes "num < 2 ^ 31"
  shows "stoi (dec num) = Inr (int num)"
proof -
  have "dropWhile isspace (dec num) = dec num"
    using skip_to_dec [of "[]" num "[]"] by simp
  moreover have "scan_int (dec num) = (Some (int num), [])"
    using scan_int_dec [of "[]" num] by (simp add: delimited_def)
  ultimately show ?thesis
    using assms by (simp add: stoi_def INT_MAX_def INT_MIN_def)
qed

lemma pal_header:
  assumes "num < 2 ^ 31"
  shows "Palette_ifstream (open_file (pal_text num ts)) =
     (case read_pal_loop num
             \<lparr>content = pal_text num ts, rest = concat (map pal_line ts), eofbit = (ts = []),
              failbit = False\<rparr> 0 [] of
        Inl e \<Rightarrow> Inl e
      | Inr colours \<Rightarrow>
          if num \<noteq> length colours then Inl ColorCountMismatch
          else Inr \<lparr>m_colours = colours, m_transparentColour = 0xe3\<rparr>)"
proof -
  let ?T = "pal_text num ts"
  let ?L = "concat (map pal_line ts)"
  have nl: "delimited (CHR 0x0A # xs)" for xs
    by (simp add: delimited_def isspace_def)
  have tag: "istream_read (open_file ?T) 4
      = (''JASC'', \<lparr>content = ?T, rest = drop 4 ?T, eofbit = False, failbit = False\<rparr>)"
    by (simp add: istream_read_def open_file_def good_def pal_text_def)
  have seek: "seekg_beg \<lparr>content = ?T, rest = drop 4 ?T, eofbit = False, failbit = False\<rparr>
      = \<lparr>content = ?T, rest = [] @ ''JASC-PAL'' @ (CHR 0x0A # ''0100'' @ CHR 0x0A # dec num @ ?L),
         eofbit = False, failbit = False\<rparr>"
    by (simp add: seekg_beg_def pal_text_def)
  have t1: "get_string \<lparr>content = ?T, rest = [] @ ''JASC-PAL'' @ (CHR 0x0A # ''0100'' @ CHR 0x0A # dec num @ ?L),
         eofbit = False, failbit = False\<rparr> []
      = (''JASC-PAL'', \<lparr>content = ?T, rest = [CHR 0x0A] @ ''0100'' @ (CHR 0x0A # dec num @ ?L),
         eofbit = False, failbit = False\<rparr>)"
    using get_string_token [of "[]" "''JASC-PAL''" "CHR 0x0A # ''0100'' @ CHR 0x0A # dec num @ ?L" ?T "[]"] nl
    by (simp add: isspace_def)
  have t2: "get_string \<lparr>content = ?T, rest = [CHR 0x0A] @ ''0100'' @ (CHR 0x0A # dec num @ ?L),
         eofbit = False, failbit = False\<rparr> ''JASC-PAL''
      = (''0100'', \<lparr>content = ?T, rest = [CHR 0x0A] @ dec num @ ?L,
         eofbit = False, failbit = False\<rparr>)"
    using get_string_token [of "[CHR 0x0A]" "''0100''" "CHR 0x0A # dec num @ ?L" ?T "''JASC-PAL''"] nl
    by (simp add: isspace_def)
  have "\<forall>c\<in>set (dec num). \<not> isspace c"
    using dec_digits isdigit_not_space by blast
  then have t3: "get_string \<lparr>content = ?T, rest = [CHR 0x0A] @ dec num @ ?L,
         eofbit = False, failbit = False\<rparr> ''0100''
      = (dec num, \<lparr>content = ?T, rest = ?L, eofbit = (ts = []), failbit = False\<rparr>)"
    using get_string_token [of "[CHR 0x0A]" "dec num" ?L ?T "''0100''"] delimited_lines [of ts]
      dec_nonempty [of num] lines_empty [of ts]
    by (simp add: isspace_def del: concat_eq_Nil_conv)
  have n: "nat (int num mod 18446744073709551616) = num"
    using assms by simp
  show ?thesis
    unfolding Palette_ifstream_def tag
    by (simp add: read_pal_def seek t1 t2 t3 stoi_dec [OF assms] n Let_def del: append.simps)
qed

text \<open>
  C6, as the code has it. A count that disagrees with the triples present is reported
  in one direction only. A file that ends with the last digit of its last triple and
  holds fewer triples than it declares (or declares none and holds some) is refused with
  \<open>ColorCountMismatch\<close> and no palette is returned. A file that holds at least the
  declared number of triples is accepted: the loop leaves at the declared number
  (line 218), the triples after it are not read, and the palette of the declared number
  of entries is returned.
\<close>

theorem jasc_count_check:
  assumes "\<forall>t\<in>set ts. valid_triple t" and "num < 2 ^ 31"
  shows "(length ts < num \<longrightarrow>
            Palette_ifstream (open_file (pal_text num ts)) = Inl ColorCountMismatch)
       \<and> (num = 0 \<and> ts \<noteq> [] \<longrightarrow>
            Palette_ifstream (open_file (pal_text num ts)) = Inl ColorCountMismatch)
       \<and> (1 \<le> num \<and> num \<le> length ts \<longrightarrow>
            Palette_ifstream (open_file (pal_text num ts))
              = Inr \<lparr>m_colours = map quantize (take num ts), m_transparentColour = 0xe3\<rparr>)"
proof -
  have 1: "Palette_ifstream (open_file (pal_text num ts)) =
     (case read_pal_loop num
             \<lparr>content = pal_text num ts, rest = concat (map pal_line ts), eofbit = (ts = []),
              failbit = False\<rparr> 0 [] of
        Inl e \<Rightarrow> Inl e
      | Inr colours \<Rightarrow>
          if num \<noteq> length colours then Inl ColorCountMismatch
          else Inr \<lparr>m_colours = colours, m_transparentColour = 0xe3\<rparr>)"
    by (rule pal_header [OF assms(2)])
  have 2: "read_pal_loop num
             \<lparr>content = pal_text num ts, rest = concat (map pal_line ts), eofbit = (ts = []),
              failbit = False\<rparr> 0 []
           = Inr ([] @ map quantize (if 0 < num then take (num - 0) ts else ts))"
    by (rule read_pal_loop_lines [OF assms(1)])
  show ?thesis
    unfolding 1 2 by auto
qed

theorem jasc_count_check_witness:
  "pal_text 3 [(0, 0, 0), (255, 255, 255)]
     = ''JASC-PAL'' @ [CHR 0x0A] @ ''0100'' @ [CHR 0x0A] @ ''3'' @ [CHR 0x0A] @ ''0 0 0''
       @ [CHR 0x0A] @ ''255 255 255''
   \<and> Palette_ifstream (open_file (pal_text 3 [(0, 0, 0), (255, 255, 255)])) = Inl ColorCountMismatch
   \<and> Palette_ifstream (open_file (pal_text 1 [(0, 0, 0), (255, 255, 255)]))
       = Inr \<lparr>m_colours = [quantize (0, 0, 0)], m_transparentColour = 0xe3\<rparr>"
proof -
  have v: "\<forall>t\<in>set [(0, 0, 0), (255, 255, 255)]. valid_triple t"
    by (simp add: valid_triple_def)
  have 1: "pal_text 3 [(0, 0, 0), (255, 255, 255)]
     = ''JASC-PAL'' @ [CHR 0x0A] @ ''0100'' @ [CHR 0x0A] @ ''3'' @ [CHR 0x0A] @ ''0 0 0''
       @ [CHR 0x0A] @ ''255 255 255''"
    by (simp add: pal_text_def pal_line_def dec.simps char_of_eq_iff)
  have 2: "Palette_ifstream (open_file (pal_text 3 [(0, 0, 0), (255, 255, 255)])) = Inl ColorCountMismatch"
    using jasc_count_check [OF v, of 3] by simp
  have 3: "Palette_ifstream (open_file (pal_text 1 [(0, 0, 0), (255, 255, 255)]))
       = Inr \<lparr>m_colours = [quantize (0, 0, 0)], m_transparentColour = 0xe3\<rparr>"
    using jasc_count_check [OF v, of 1] by simp
  show ?thesis by (intro conjI 1 2 3)
qed

text \<open>
  C6 as stated fails: a file that declares 2 colours and holds 3 triples is not
  refused, and the palette of its first 2 triples is returned.
\<close>

theorem surplus_triples_counterexample:
  "Palette_ifstream (open_file (''JASC-PAL'' @ [CHR 0x0A] @ ''0100'' @ [CHR 0x0A] @ ''2'' @ [CHR 0x0A]
       @ ''0 0 0'' @ [CHR 0x0A] @ ''255 255 255'' @ [CHR 0x0A] @ ''36 36 36'' @ [CHR 0x0A]))
     = Inr \<lparr>m_colours = [\<lparr>m_red = 0, m_green = 0, m_blue = 0\<rparr>, \<lparr>m_red = 7, m_green = 7, m_blue = 7\<rparr>],
            m_transparentColour = 0xe3\<rparr>"
  by (simp add: Palette_ifstream_def open_file_def istream_read_def good_def read_pal_def seekg_beg_def
      get_string_def sentry_def isspace_def isdigit_def stoi_def scan_int_def digits_value_def
      INT_MAX_def INT_MIN_def Let_def read_pal_loop.simps read_triple_def get_int_def check_triple_def
      gfxReduce3_def reduce_loop.simps kColour_3bit_def)

text \<open>
  A file that declares 3 colours and holds 2 triples followed by a line end: \<^verbatim>\<open>eofbit\<close> is
  not yet set after the second triple, so the loop of line 203 runs a third round, whose
  extractions store nothing, and \<^verbatim>\<open>red\<close>, \<^verbatim>\<open>green\<close> and \<^verbatim>\<open>blue\<close> are used without having
  been written. The count test of line 221 is not what ends this run.
\<close>

lemma short_palette_trailing_newline:
  "Palette_ifstream (open_file (''JASC-PAL'' @ [CHR 0x0A] @ ''0100'' @ [CHR 0x0A] @ ''3'' @ [CHR 0x0A]
       @ ''0 0 0'' @ [CHR 0x0A] @ ''255 255 255'' @ [CHR 0x0A]))
     = Inl IndeterminateRead"
  by (simp add: Palette_ifstream_def open_file_def istream_read_def good_def read_pal_def seekg_beg_def
      get_string_def sentry_def isspace_def isdigit_def stoi_def scan_int_def digits_value_def
      INT_MAX_def INT_MIN_def Let_def read_pal_loop.simps read_triple_def get_int_def check_triple_def
      gfxReduce3_def reduce_loop.simps kColour_3bit_def)

subsection \<open>The palettes the program builds\<close>

text \<open>
  Every entry of a palette comes from \<^verbatim>\<open>gfxReduce3\<close>, from the 3-bit fields of a NIP
  entry or from the 3-bit fields of the default palette, so every channel is in 0..7 and
  the look-ups \<^verbatim>\<open>kColour_3bit[c]\<close> of the search stay inside the table. Neither reader
  bounds the number of entries of a JASC-PAL file.
\<close>

lemma gfxReduce3_bound: "unat (gfxReduce3 v) < 8"
proof -
  have "nearest_first kColour_3bit 8 (uint v) (reduce_loop kColour_3bit 8 (uint v) 0 0 255)"
    using uint_lt2p [of v] by (intro reduce_loop_start) (simp_all add: kColour_3bit_def)
  then have "reduce_loop kColour_3bit 8 (uint v) 0 0 255 < 8"
    by (rule nearest_first_bound)
  then show ?thesis by (simp add: gfxReduce3_def unat_of_nat)
qed

lemma low3: "take_bit 3 x = x \<Longrightarrow> unat (x :: u8) < 8"
proof -
  assume "take_bit 3 x = x"
  then have "unat x = take_bit 3 (unat x)"
    by (metis unsigned_take_bit_eq)
  then show ?thesis
    using take_bit_nat_less_exp [of 3 "unat x"] by simp
qed

lemma unpack_colour_valid: "valid_colour (unpack_colour p1 p2)"
proof -
  have m: "(0xe0 :: u8) = push_bit 5 (mask 3)" "(0x1c :: u8) = push_bit 2 (mask 3)"
    by (simp_all add: mask_eq_exp_minus_1 push_bit_eq_mult)
  have "take_bit 3 (drop_bit 5 (p1 AND 0xe0)) = drop_bit 5 (p1 AND 0xe0)"
    unfolding m by (rule bit_word_eqI) (auto simp: bit_simps)
  then have r: "unat (drop_bit 5 (p1 AND 0xe0)) < 8" by (rule low3)
  have "take_bit 3 (drop_bit 2 (p1 AND 0x1c)) = drop_bit 2 (p1 AND 0x1c)"
    unfolding m by (rule bit_word_eqI) (auto simp: bit_simps)
  then have g: "unat (drop_bit 2 (p1 AND 0x1c)) < 8" by (rule low3)
  have "p1 AND 0x03 \<le> 3" by (rule word_and_le1)
  then have "unat (p1 AND 0x03) < 4" by (simp add: word_le_nat_alt)
  then have h: "p1 AND 0x03 = 0 \<or> p1 AND 0x03 = 1 \<or> p1 AND 0x03 = 2 \<or> p1 AND 0x03 = 3"
    using u8_lt8_cases [of "p1 AND 0x03"] by auto
  have "p2 AND 1 \<le> 1" by (rule word_and_le1)
  then have "unat (p2 AND 1) < 2" by (simp add: word_le_nat_alt)
  then have q: "p2 AND 1 = 0 \<or> p2 AND 1 = 1"
    using u8_lt8_cases [of "p2 AND 1"] by auto
  have b: "unat (push_bit 1 (p1 AND 0x03) OR (p2 AND 1)) < 8"
    using h q by (elim disjE) simp_all
  show ?thesis
    using r g b by (simp add: valid_colour_def unpack_colour_def)
qed

lemma read_nip_entries_valid:
  "read_nip_entries n flags f acc = Inr (cs, f') \<Longrightarrow> \<forall>c\<in>set acc. valid_colour c
   \<Longrightarrow> \<forall>c\<in>set cs. valid_colour c"
proof (induction n arbitrary: f acc)
  case 0
  then show ?case by simp
next
  case (Suc n)
  obtain o1 f1 where 1: "read_u8 f = (o1, f1)" by (cases "read_u8 f")
  obtain p1 where o1: "o1 = Some p1"
    using Suc.prems(1) 1 by (cases o1) simp_all
  show ?case
  proof (cases "flags AND 1 \<noteq> 0")
    case True
    obtain o2 f2 where 2: "read_u8 f1 = (o2, f2)" by (cases "read_u8 f1")
    obtain p2 where o2: "o2 = Some p2"
      using Suc.prems(1) 1 o1 True 2 by (cases o2) simp_all
    have "read_nip_entries n flags f2 (acc @ [unpack_colour p1 p2]) = Inr (cs, f')"
      using Suc.prems(1) 1 o1 True 2 o2 by simp
    then show ?thesis
      using Suc.IH [of f2 "acc @ [unpack_colour p1 p2]"] Suc.prems(2) unpack_colour_valid by simp
  next
    case False
    let ?c = "unpack_colour p1 (drop_bit 1 (p1 AND 2) OR (p1 AND 1))"
    have "read_nip_entries n flags f1 (acc @ [?c]) = Inr (cs, f')"
      using Suc.prems(1) 1 o1 False by simp
    then show ?thesis
      using Suc.IH [of f1 "acc @ [?c]"] Suc.prems(2) unpack_colour_valid by simp
  qed
qed

lemma read_pal_loop_valid:
  "read_pal_loop num f i acc = Inr cs \<Longrightarrow> \<forall>c\<in>set acc. valid_colour c
   \<Longrightarrow> \<forall>c\<in>set cs. valid_colour c"
proof (induction num f i acc rule: read_pal_loop.induct)
  case (1 num f i colours)
  show ?case
  proof (cases "eofbit f")
    case True
    then show ?thesis using "1.prems" by (subst (asm) read_pal_loop.simps) simp
  next
    case False
    obtain res f' where rt: "read_triple f = (res, f')" by (cases "read_triple f")
    show ?thesis
    proof (cases res)
      case (Inl e)
      then show ?thesis using "1.prems" False rt by (subst (asm) read_pal_loop.simps) simp
    next
      case (Inr t)
      obtain red green blue where t: "t = (red, green, blue)" by (cases t)
      let ?c = "\<lparr>m_red = gfxReduce3 (word_of_int red), m_green = gfxReduce3 (word_of_int green),
                 m_blue = gfxReduce3 (word_of_int blue)\<rparr>"
      have vc: "valid_colour ?c" by (simp add: valid_colour_def gfxReduce3_bound)
      then have va: "\<forall>c\<in>set (colours @ [?c]). valid_colour c" using "1.prems"(2) by simp
      show ?thesis
      proof (cases "Suc i = num")
        case True
        then have "cs = colours @ [?c]"
          using "1.prems"(1) False rt Inr t by (subst (asm) read_pal_loop.simps) simp
        then show ?thesis using va by simp
      next
        case ne: False
        have "read_pal_loop num f' (Suc i) (colours @ [?c]) = Inr cs"
          using "1.prems"(1) False rt Inr t ne by (subst (asm) read_pal_loop.simps) simp
        then show ?thesis
          using "1.IH" [OF False rt [symmetric] Inr t [symmetric] refl refl ne _ va] by simp
      qed
    qed
  qed
qed

lemma read_nip_valid:
  assumes "read_nip f = Inr q"
  shows "\<forall>c\<in>set (m_colours q). valid_colour c"
proof -
  obtain c1 f2 where 1: "read_u8 f = (c1, f2)" by (cases "read_u8 f")
  obtain c2 f3 where 2: "read_u8 f2 = (c2, f3)" by (cases "read_u8 f2")
  obtain nc where c1: "c1 = Some nc"
    using assms 1 2 by (cases c1) (simp_all add: read_nip_def)
  obtain flags where c2: "c2 = Some flags"
    using assms 1 2 c1 by (cases c2) (simp_all add: read_nip_def)
  define n where "n = (if nc \<noteq> 0 then unat nc else 256)"
  obtain cs f4 where 3: "read_nip_entries n flags f3 [] = Inr (cs, f4)"
    using assms 1 2 c1 c2
    by (cases "read_nip_entries n flags f3 []") (auto simp: read_nip_def n_def)
  obtain c5 f5 where 4: "read_u8 f4 = (c5, f5)" by (cases "read_u8 f4")
  have "m_colours q = cs"
    using assms 1 2 c1 c2 3 4 by (auto simp: read_nip_def n_def)
  then show ?thesis
    using read_nip_entries_valid [OF 3] by simp
qed

lemma read_pal_valid:
  assumes "read_pal f = Inr q"
  shows "\<forall>c\<in>set (m_colours q). valid_colour c"
proof -
  obtain l1 f2 where 1: "get_string (seekg_beg f) [] = (l1, f2)" by (cases "get_string (seekg_beg f) []")
  obtain l2 f3 where 2: "get_string f2 l1 = (l2, f3)" by (cases "get_string f2 l1")
  obtain l3 f4 where 3: "get_string f3 l2 = (l3, f4)" by (cases "get_string f3 l2")
  show ?thesis
  proof (cases "l1 = ''JASC-PAL'' \<and> l2 = ''0100''")
    case False
    then have "m_colours q = []"
      using assms 1 2 by (auto simp: read_pal_def split: if_splits)
    then show ?thesis by simp
  next
    case True
    obtain n where n: "stoi l3 = Inr n"
      using assms 1 2 3 True by (cases "stoi l3") (auto simp: read_pal_def)
    define num where "num = nat (n mod 2 ^ 64)"
    obtain cs where cs: "read_pal_loop num f4 0 [] = Inr cs"
      using assms 1 2 3 True n
      by (cases "read_pal_loop num f4 0 []") (auto simp: read_pal_def num_def)
    have "m_colours q = cs"
      using assms 1 2 3 True n cs by (auto simp: read_pal_def num_def split: if_splits)
    then show ?thesis
      using read_pal_loop_valid [OF cs] by simp
  qed
qed

lemma Palette_ifstream_valid:
  assumes "Palette_ifstream f = Inr q"
  shows "\<forall>c\<in>set (m_colours q). valid_colour c"
proof -
  obtain tag f1 where tg: "istream_read f 4 = (tag, f1)" by (cases "istream_read f 4")
  show ?thesis
  proof (cases "tag = ''NIP0''")
    case True
    then have "read_nip f1 = Inr q"
      using assms tg by (simp add: Palette_ifstream_def)
    then show ?thesis by (rule read_nip_valid)
  next
    case False
    then have "read_pal f1 = Inr q"
      using assms tg by (simp add: Palette_ifstream_def split: if_splits)
    then show ?thesis by (rule read_pal_valid)
  qed
qed

lemma default_colour_valid:
  assumes "0 \<le> i"
  shows "valid_colour (default_colour i)"
proof -
  have "i AND 0xe0 \<le> 0xe0" by (rule AND_upper2) simp
  then have "(i AND 0xe0) div 32 < 8" by presburger
  then have "drop_bit 5 (i AND 0xe0) < 8"
    by (simp add: drop_bit_eq_div)
  moreover have "0 \<le> drop_bit 5 (i AND 0xe0)"
    using assms by simp
  ultimately have r: "0 \<le> drop_bit 5 (i AND 0xe0)" "drop_bit 5 (i AND 0xe0) < 8"
    by blast+
  have "i AND 0x1c \<le> 0x1c" by (rule AND_upper2) simp
  then have "(i AND 0x1c) div 4 < 8" by presburger
  then have "drop_bit 2 (i AND 0x1c) < 8"
    by (simp add: drop_bit_eq_div)
  moreover have "0 \<le> drop_bit 2 (i AND 0x1c)"
    using assms by simp
  ultimately have g: "0 \<le> drop_bit 2 (i AND 0x1c)" "drop_bit 2 (i AND 0x1c) < 8"
    by blast+
  have h: "0 \<le> i AND 3" "i AND 3 \<le> 3"
    using assms AND_upper2 [of 3 i] by simp_all
  have t: "0 \<le> i AND 2" "i AND 2 \<le> 2" "0 \<le> i AND 1" "i AND 1 \<le> 1"
    using assms AND_upper2 [of 2 i] AND_upper2 [of 1 i] by simp_all
  have "drop_bit 1 (i AND 2) = (i AND 2) div 2"
    by (simp add: drop_bit_eq_div)
  then have "drop_bit 1 (i AND 2) = 0 \<or> drop_bit 1 (i AND 2) = 1"
    using t(1,2) by presburger
  moreover have "i AND 1 = 0 \<or> i AND 1 = 1"
    using t(3,4) by presburger
  ultimately have l: "0 \<le> (drop_bit 1 (i AND 2) OR (i AND 1))" "(drop_bit 1 (i AND 2) OR (i AND 1)) \<le> 1"
    by auto
  have "push_bit 1 (i AND 3) = 2 * (i AND 3)"
    by (simp add: push_bit_eq_mult)
  then have b: "0 \<le> push_bit 1 (i AND 3) + (drop_bit 1 (i AND 2) OR (i AND 1))"
    "push_bit 1 (i AND 3) + (drop_bit 1 (i AND 2) OR (i AND 1)) < 8"
    using h l by linarith+
  have u: "unat (word_of_int x :: u8) < 8" if "0 \<le> x" "x < 8" for x
    using that by (simp add: unat_eq_nat_uint uint_word_of_int take_bit_eq_mod)
  show ?thesis
    unfolding valid_colour_def default_colour_def
    using u [OF r] u [OF g] u [OF b] by simp
qed

lemma Palette_default_valid: "\<forall>c\<in>set (m_colours Palette_default). valid_colour c"
  by (auto simp: Palette_default_def default_colour_valid)

lemma quantize_black_white:
  "quantize (0, 0, 0) = \<lparr>m_red = 0, m_green = 0, m_blue = 0\<rparr>"
  "quantize (255, 255, 255) = \<lparr>m_red = 7, m_green = 7, m_blue = 7\<rparr>"
  by (simp_all add: quantize_def gfxReduce3_def kColour_3bit_def reduce_loop.simps)

lemma oversized_palette_from_file:
  "Palette_ifstream (open_file (pal_text 257 (replicate 256 (0, 0, 0) @ [(255, 255, 255)])))
     = Inr oversized_palette"
proof -
  let ?ts = "replicate 256 (0, 0, 0) @ [(255, 255, 255)] :: (nat \<times> nat \<times> nat) list"
  have v: "\<forall>t\<in>set ?ts. valid_triple t"
    by (auto simp: valid_triple_def)
  have n: "(257::nat) < 2 ^ 31" by simp
  have 1: "Palette_ifstream (open_file (pal_text 257 ?ts)) =
     (case read_pal_loop 257
             \<lparr>content = pal_text 257 ?ts, rest = concat (map pal_line ?ts), eofbit = (?ts = []),
              failbit = False\<rparr> 0 [] of
        Inl e \<Rightarrow> Inl e
      | Inr colours \<Rightarrow>
          if 257 \<noteq> length colours then Inl ColorCountMismatch
          else Inr \<lparr>m_colours = colours, m_transparentColour = 0xe3\<rparr>)"
    by (rule pal_header [OF n])
  have 2: "read_pal_loop 257
             \<lparr>content = pal_text 257 ?ts, rest = concat (map pal_line ?ts), eofbit = (?ts = []),
              failbit = False\<rparr> 0 []
           = Inr ([] @ map quantize (if 0 < (257::nat) then take (257 - 0) ?ts else ?ts))"
    by (rule read_pal_loop_lines [OF v])
  show ?thesis
    unfolding 1 2 by (simp add: quantize_black_white oversized_palette_def)
qed

text \<open>
  An empty palette is written with the count byte 0, which the reader takes for 256
  entries: the file does not hold them.
\<close>

lemma empty_palette_file:
  "Palette_ifstream (open_file (Palette_write \<lparr>m_colours = [], m_transparentColour = t\<rparr> False))
     = Inl IndeterminateRead"
proof -
  have e: "Suc (Suc 254) = (256::nat)" by simp
  have x0: "read_nip_entries (Suc (Suc k)) 0 \<lparr>content = c, rest = [x], eofbit = False, failbit = False\<rparr> []
        = Inl IndeterminateRead" for c x k
    by (simp add: read_u8_Cons read_u8_Nil)
  note x = x0 [of 254, unfolded e]
  show ?thesis
    by (simp add: x Palette_ifstream_def Palette_write_def header_numColours_def open_file_def
        istream_read_def good_def read_nip_def read_u8_Cons of_char_byte_of)
qed

end
